theory Spec2Isabelle
  imports Complex_Main
begin

section \<open>JavaScript strings\<close>

text \<open>
  A \<^typ>\<open>char\<close> stands for a UTF-16 code unit below 256 (the Latin-1 range), so a
  \<^typ>\<open>string\<close> is a JavaScript string over that range. The functions below are the
  methods of \<^verbatim>\<open>String.prototype\<close> that \<^verbatim>\<open>Lib/pagination.mjs\<close> and the tool
  handlers call, restricted to that range.
\<close>

definition is_space :: "char \<Rightarrow> bool" where
  \<comment> \<open>the class \<^verbatim>\<open>\s\<close>, also what \<^verbatim>\<open>trim\<close> strips: TAB, LF, VT, FF, CR, SP, NBSP\<close>
  "is_space c = (of_char c \<in> {9, 10, 11, 12, 13, 32, 160 :: nat})"

definition is_word :: "char \<Rightarrow> bool" where
  \<comment> \<open>the class \<^verbatim>\<open>\w\<close>, that is \<^verbatim>\<open>[A-Za-z0-9_]\<close>\<close>
  "is_word c = (let n = (of_char c :: nat) in
     (48 \<le> n \<and> n \<le> 57) \<or> (65 \<le> n \<and> n \<le> 90) \<or> n = 95 \<or> (97 \<le> n \<and> n \<le> 122))"

definition is_dot :: "char \<Rightarrow> bool" where
  \<comment> \<open>the class \<^verbatim>\<open>.\<close> without the \<^verbatim>\<open>s\<close> flag: anything but a line terminator\<close>
  "is_dot c = (of_char c \<notin> {10, 13 :: nat})"

definition lower :: "char \<Rightarrow> char" where
  "lower c = (let n = (of_char c :: nat) in
     if (65 \<le> n \<and> n \<le> 90) \<or> (192 \<le> n \<and> n \<le> 222 \<and> n \<noteq> 215)
     then char_of (n + 32) else c)"

definition toLowerCase :: "string \<Rightarrow> string" where
  "toLowerCase s = map lower s"

definition trim :: "string \<Rightarrow> string" where
  "trim s = rev (dropWhile is_space (rev (dropWhile is_space s)))"

fun startsWith :: "string \<Rightarrow> string \<Rightarrow> bool" where
  "startsWith s [] = True"
| "startsWith [] (x # xs) = False"
| "startsWith (c # cs) (x # xs) = (c = x \<and> startsWith cs xs)"

fun str_includes :: "string \<Rightarrow> string \<Rightarrow> bool" where
  \<comment> \<open>\<^verbatim>\<open>s.includes(sub)\<close>\<close>
  "str_includes [] sub = (sub = [])"
| "str_includes (c # cs) sub = (startsWith (c # cs) sub \<or> str_includes cs sub)"

definition substring :: "string \<Rightarrow> nat \<Rightarrow> nat \<Rightarrow> string" where
  "substring s i j = take (j - i) (drop i s)"

fun split_chr :: "char \<Rightarrow> string \<Rightarrow> string list" where
  \<comment> \<open>\<^verbatim>\<open>s.split(sep)\<close> for a one-character separator string\<close>
  "split_chr sep [] = [[]]"
| "split_chr sep (c # cs) =
     (if c = sep then [] # split_chr sep cs
      else (case split_chr sep cs of [] \<Rightarrow> [[c]] | p # ps \<Rightarrow> (c # p) # ps))"

fun join :: "string \<Rightarrow> string list \<Rightarrow> string" where
  "join sep [] = []"
| "join sep [x] = x"
| "join sep (x # y # ys) = x @ sep @ join sep (y # ys)"

fun digits_of :: "nat \<Rightarrow> string" where
  "digits_of n = (if n < 10 then [char_of (48 + n)]
                  else digits_of (n div 10) @ [char_of (48 + n mod 10)])"

declare digits_of.simps [simp del]

section \<open>Regular expressions\<close>

text \<open>
  The regular-expression literals of the source are values of \<open>rx\<close>; \<open>rx_m\<close> is a
  backtracking matcher that lists, in the engine's order of preference, every way the
  expression matches at a position: a greedy quantifier offers the longest run first, a
  lazy one the shortest, an alternative its left branch first. The head of the list is
  the match the engine reports. Quantifiers apply to a one-character class, which is all
  the source uses; the one capture group a literal may have is recorded as a pair of
  positions.
\<close>

datatype rx =
    Eps
  | Chr "char \<Rightarrow> bool"
  | Seq rx rx
  | Alt rx rx
  | Plus "char \<Rightarrow> bool"
  | PlusLazy "char \<Rightarrow> bool"
  | Star "char \<Rightarrow> bool"
  | WordB
  | Eol
  | Cap rx

type_synonym capture = "(nat \<times> nat) option"

definition run_len :: "(char \<Rightarrow> bool) \<Rightarrow> string \<Rightarrow> nat \<Rightarrow> nat" where
  "run_len p s i = length (takeWhile p (drop i s))"

definition word_at :: "string \<Rightarrow> nat \<Rightarrow> bool" where
  "word_at s i = (i < length s \<and> is_word (s ! i))"

fun rx_m :: "rx \<Rightarrow> string \<Rightarrow> nat \<Rightarrow> capture \<Rightarrow> (nat \<times> capture) list" where
  "rx_m Eps s i c = [(i, c)]"
| "rx_m (Chr p) s i c = (if i < length s \<and> p (s ! i) then [(Suc i, c)] else [])"
| "rx_m (Seq a b) s i c = concat (map (\<lambda>(j, c'). rx_m b s j c') (rx_m a s i c))"
| "rx_m (Alt a b) s i c = rx_m a s i c @ rx_m b s i c"
| "rx_m (Plus p) s i c = map (\<lambda>k. (i + k, c)) (rev [1..<Suc (run_len p s i)])"
| "rx_m (PlusLazy p) s i c = map (\<lambda>k. (i + k, c)) [1..<Suc (run_len p s i)]"
| "rx_m (Star p) s i c = map (\<lambda>k. (i + k, c)) (rev [0..<Suc (run_len p s i)])"
| "rx_m WordB s i c =
     (if (0 < i \<and> word_at s (i - 1)) \<noteq> word_at s i then [(i, c)] else [])"
| "rx_m Eol s i c = (if i = length s then [(i, c)] else [])"
| "rx_m (Cap a) s i c = map (\<lambda>(j, _). (j, Some (i, j))) (rx_m a s i c)"

fun rx_find :: "rx \<Rightarrow> string \<Rightarrow> nat list \<Rightarrow> (nat \<times> nat \<times> capture) option" where
  "rx_find r s [] = None"
| "rx_find r s (i # is) =
     (case rx_m r s i None of [] \<Rightarrow> rx_find r s is | (j, c) # _ \<Rightarrow> Some (i, j, c))"

definition rx_exec :: "rx \<Rightarrow> string \<Rightarrow> (nat \<times> nat \<times> capture) option" where
  \<comment> \<open>the leftmost match: its start, its end and its capture\<close>
  "rx_exec r s = rx_find r s [0..<Suc (length s)]"

definition rx_test :: "rx \<Rightarrow> string \<Rightarrow> bool" where
  \<comment> \<open>\<^verbatim>\<open>re.test(s)\<close>\<close>
  "rx_test r s = (rx_exec r s \<noteq> None)"

definition rx_match1 :: "rx \<Rightarrow> string \<Rightarrow> string option" where
  \<comment> \<open>\<^verbatim>\<open>s.match(re)\<close> read at index 1, for a literal whose group always takes part\<close>
  "rx_match1 r s =
     (case rx_exec r s of
        None \<Rightarrow> None
      | Some (_, _, None) \<Rightarrow> None
      | Some (_, _, Some (i, j)) \<Rightarrow> Some (substring s i j))"

definition rx_replace :: "rx \<Rightarrow> string \<Rightarrow> string \<Rightarrow> string" where
  \<comment> \<open>\<^verbatim>\<open>s.replace(re, rep)\<close> without the \<^verbatim>\<open>g\<close> flag: the first match only\<close>
  "rx_replace r rep s =
     (case rx_exec r s of None \<Rightarrow> s | Some (i, j, _) \<Rightarrow> take i s @ rep @ drop j s)"

definition replace_all_chr :: "(char \<Rightarrow> bool) \<Rightarrow> string \<Rightarrow> string \<Rightarrow> string" where
  \<comment> \<open>\<^verbatim>\<open>s.replace(/[...]/g, rep)\<close> for a one-character pattern\<close>
  "replace_all_chr p rep s = concat (map (\<lambda>c. if p c then rep else [c]) s)"

lemma rx_m_advances: "(e, c') \<in> set (rx_m r s q c) \<Longrightarrow> q \<le> e"
  by (induction r s q c arbitrary: e c' rule: rx_m.induct)
     (fastforce split: if_splits)+

function rx_split_from :: "rx \<Rightarrow> string \<Rightarrow> nat \<Rightarrow> nat \<Rightarrow> string list" where
  "rx_split_from r s p q =
     (if q < length s then
        (case rx_m r s q None of
           [] \<Rightarrow> rx_split_from r s p (Suc q)
         | (e, _) # _ \<Rightarrow>
             if e = p then rx_split_from r s p (Suc q)
             else substring s p q # rx_split_from r s e e)
      else [substring s p (length s)])"
  by pat_completeness auto
termination
proof (relation "measure (\<lambda>(r, s, p, q). 2 * (length s - q) + (if p = q then 0 else 1))",
       goal_cases)
  case 1
  show ?case by simp
next
  case (2 r s p q)
  then show ?case by (simp split: if_splits) arith
next
  case (3 r s p q x xs e c)
  then show ?case by (simp split: if_splits) arith
next
  case (4 r s p q x xs e c)
  then have "(e, c) \<in> set (rx_m r s q None)" by simp
  then have "q \<le> e" by (rule rx_m_advances)
  with 4 show ?case by (auto split: if_splits)
qed

declare rx_split_from.simps [simp del]

definition rx_split :: "rx \<Rightarrow> string \<Rightarrow> string list" where
  \<comment> \<open>\<^verbatim>\<open>s.split(re)\<close> for a literal without capture groups\<close>
  "rx_split r s =
     (if s = [] then (if rx_m r s 0 None = [] then [s] else [])
      else rx_split_from r s 0 0)"

fun rx_seq :: "rx list \<Rightarrow> rx" where
  "rx_seq [] = Eps"
| "rx_seq [r] = r"
| "rx_seq (r # rs) = Seq r (rx_seq rs)"

fun rx_alt :: "rx list \<Rightarrow> rx" where
  "rx_alt [] = Eps"
| "rx_alt [r] = r"
| "rx_alt (r # rs) = Alt r (rx_alt rs)"

definition lit :: "string \<Rightarrow> rx" where
  \<comment> \<open>literal text, case-sensitive\<close>
  "lit w = rx_seq (map (\<lambda>x. Chr (\<lambda>c. c = x)) w)"

definition lit_i :: "string \<Rightarrow> rx" where
  \<comment> \<open>literal text under the \<^verbatim>\<open>i\<close> flag\<close>
  "lit_i w = rx_seq (map (\<lambda>x. Chr (\<lambda>c. lower c = lower x)) w)"

section \<open>JavaScript values, objects and the runtime\<close>

text \<open>
  Values as \<^verbatim>\<open>JSON.parse\<close> and the database driver produce them. The type \<open>'n\<close> of
  numbers is left open: the functions below use its \<open>0\<close>, \<open>1\<close>, \<open>+\<close>, \<open>/\<close> and \<open><\<close> and
  assume no law of them. An object is the list of its own properties in insertion order;
  every object of the program is a plain one, so a property it does not own is looked up in
  \<^verbatim>\<open>Object.prototype\<close>. \<open>JFun name\<close> is the built-in function of that name and \<open>JProto\<close>
  is the object \<^verbatim>\<open>Object.prototype\<close> itself; the program reads them from a row and never
  calls or inspects them.
\<close>

datatype 'n jsval =
    JUndefined
  | JNull
  | JBool bool
  | JNum 'n
  | JStr string
  | JArr "'n jsval list"
  | JObj "(string \<times> 'n jsval) list"
  | JFun string
  | JProto

type_synonym 'n obj = "(string \<times> 'n jsval) list"

datatype js_error = TypeError | SyntaxError | Error string

fun truthy :: "'n::zero jsval \<Rightarrow> bool" where
  "truthy JUndefined = False"
| "truthy JNull = False"
| "truthy (JBool b) = b"
| "truthy (JNum n) = (n \<noteq> 0)"
| "truthy (JStr s) = (s \<noteq> [])"
| "truthy (JArr xs) = True"
| "truthy (JObj kvs) = True"
| "truthy (JFun name) = True"
| "truthy JProto = True"

definition object_prototype :: "(string \<times> 'n jsval) list" where
  \<comment> \<open>the properties of \<^verbatim>\<open>Object.prototype\<close>, which every plain object inherits\<close>
  "object_prototype =
     [(''constructor'', JFun ''Object''),
      (''__defineGetter__'', JFun ''__defineGetter__''),
      (''__defineSetter__'', JFun ''__defineSetter__''),
      (''hasOwnProperty'', JFun ''hasOwnProperty''),
      (''__lookupGetter__'', JFun ''__lookupGetter__''),
      (''__lookupSetter__'', JFun ''__lookupSetter__''),
      (''isPrototypeOf'', JFun ''isPrototypeOf''),
      (''propertyIsEnumerable'', JFun ''propertyIsEnumerable''),
      (''toString'', JFun ''toString''),
      (''valueOf'', JFun ''valueOf''),
      (''__proto__'', JProto),
      (''toLocaleString'', JFun ''toLocaleString'')]"

definition get_prop :: "'n obj \<Rightarrow> string \<Rightarrow> 'n jsval" where
  \<comment> \<open>\<^verbatim>\<open>obj[key]\<close>: an own property, else an inherited one, else \<^verbatim>\<open>undefined\<close>\<close>
  "get_prop ob k =
     (case map_of ob k of
        Some v \<Rightarrow> v
      | None \<Rightarrow> (case map_of object_prototype k of Some v \<Rightarrow> v | None \<Rightarrow> JUndefined))"

fun set_prop :: "'n obj \<Rightarrow> string \<Rightarrow> 'n jsval \<Rightarrow> 'n obj" where
  \<comment> \<open>\<^verbatim>\<open>obj[key] = v\<close>\<close>
  "set_prop [] k v = [(k, v)]"
| "set_prop ((k', v') # kvs) k v =
     (if k' = k then (k, v) # kvs else (k', v') # set_prop kvs k v)"

definition elem0 :: "'a list \<Rightarrow> js_error + 'a" where
  \<comment> \<open>\<^verbatim>\<open>xs[0]\<close> as the receiver of a method call: \<^verbatim>\<open>undefined\<close> has no methods\<close>
  "elem0 xs = (case xs of [] \<Rightarrow> Inl TypeError | x # _ \<Rightarrow> Inr x)"

definition pop :: "'a list \<Rightarrow> js_error + 'a" where
  \<comment> \<open>\<^verbatim>\<open>xs.pop()\<close> as the receiver of a method call\<close>
  "pop xs = (if xs = [] then Inl TypeError else Inr (last xs))"

text \<open>
  What the code takes from the JavaScript runtime and not from this repository:
  \<^verbatim>\<open>JSON.parse\<close> (\<open>None\<close> when it throws), \<^verbatim>\<open>JSON.stringify\<close>,
  \<^verbatim>\<open>Buffer.from(s, 'base64').toString('utf8')\<close>, \<^verbatim>\<open>Buffer.from(s).toString('base64')\<close>,
  the conversion of a number to a string, and the two constants of \<^verbatim>\<open>Number\<close>.
\<close>

record 'n runtime =
  JSON_parse :: "string \<Rightarrow> 'n jsval option"
  JSON_stringify :: "'n jsval \<Rightarrow> string"
  base64_to_utf8 :: "string \<Rightarrow> string"
  utf8_to_base64 :: "string \<Rightarrow> string"
  Number_toString :: "'n \<Rightarrow> string"
  MAX_VALUE :: 'n
  MIN_VALUE :: 'n

fun js_toString :: "'n runtime \<Rightarrow> 'n jsval \<Rightarrow> string option" where
  \<comment> \<open>the conversion a template literal applies; \<open>None\<close> when it throws\<close>
  "js_toString rt JUndefined = Some ''undefined''"
| "js_toString rt JNull = Some ''null''"
| "js_toString rt (JBool b) = Some (if b then ''true'' else ''false'')"
| "js_toString rt (JNum n) = Some (Number_toString rt n)"
| "js_toString rt (JStr s) = Some s"
| "js_toString rt (JArr xs) =
     map_option (join '','')
       (those (map (\<lambda>x. if x = JUndefined \<or> x = JNull then Some [] else js_toString rt x) xs))"
| "js_toString rt (JObj kvs) =
     (if ''toString'' \<in> fst ` set kvs then None else Some ''[object Object]'')"
| "js_toString rt (JFun name) = Some (''function '' @ name @ ''() { [native code] }'')"
| "js_toString rt JProto = Some ''[object Object]''"

text \<open>
  Objects that are shared by reference live in a store; an address is an index into it.
  Only the \<^verbatim>\<open>parameters\<close> object is passed by reference between the functions below.
\<close>

type_synonym 'n store = "'n obj list"

definition alloc :: "'n store \<Rightarrow> 'n obj \<Rightarrow> 'n store \<times> nat" where
  "alloc st ob = (st @ [ob], length st)"

definition deref :: "'n store \<Rightarrow> nat \<Rightarrow> 'n obj" where
  "deref st a = (if a < length st then st ! a else [])"

section \<open>\<^verbatim>\<open>Lib/pagination.mjs\<close>\<close>

record pq_options =
  opt_cursorField :: "string option"
  opt_pageSize :: "nat option"
  opt_cursor :: "string option"
  opt_parameters :: "nat option"
  opt_defaultCursorField :: "string option"

record pq_result =
  r_paginatedSql :: string
  r_parameters :: nat
  r_cursorField :: "string option"

definition str_truthy :: "string option \<Rightarrow> bool" where
  "str_truthy s = (case s of None \<Rightarrow> False | Some x \<Rightarrow> x \<noteq> [])"

definition rx_has_order_by :: rx where
  \<comment> \<open>\<^verbatim>\<open>/\border\s+by\b/i\<close>\<close>
  "rx_has_order_by = rx_seq [WordB, lit_i ''order'', Plus is_space, lit_i ''by'', WordB]"

definition rx_order_by_clause :: rx where
  \<comment> \<open>\<^verbatim>\<open>/ORDER\s+BY\s+([^)]+?)(?:\s+OFFSET|\s+FOR\s+JSON|\s+FOR\s+XML|\s*$)/i\<close>\<close>
  "rx_order_by_clause =
     rx_seq [lit_i ''ORDER'', Plus is_space, lit_i ''BY'', Plus is_space,
       Cap (PlusLazy (\<lambda>c. c \<noteq> CHR '')'')),
       rx_alt [rx_seq [Plus is_space, lit_i ''OFFSET''],
               rx_seq [Plus is_space, lit_i ''FOR'', Plus is_space, lit_i ''JSON''],
               rx_seq [Plus is_space, lit_i ''FOR'', Plus is_space, lit_i ''XML''],
               rx_seq [Star is_space, Eol]]]"

definition strip_brackets :: "string \<Rightarrow> string" where
  \<comment> \<open>\<^verbatim>\<open>.replace(/\[|\]/g, '')\<close>\<close>
  "strip_brackets s = replace_all_chr (\<lambda>c. c = CHR ''['' \<or> c = CHR '']'') [] s"

definition first_order_field :: "string \<Rightarrow> js_error + string" where
  \<comment> \<open>the first field of an \<^verbatim>\<open>ORDER BY\<close> clause, without \<^verbatim>\<open>ASC\<close>/\<^verbatim>\<open>DESC\<close> and brackets\<close>
  "first_order_field orderByClause =
     (case elem0 (split_chr CHR '','' orderByClause) of
        Inl e \<Rightarrow> Inl e
      | Inr x \<Rightarrow>
          (let firstOrderField = trim x in
           case elem0 (rx_split (Plus is_space) firstOrderField) of
             Inl e \<Rightarrow> Inl e
           | Inr y \<Rightarrow> Inr (strip_brackets y)))"

definition resolve_order ::
  "string \<Rightarrow> string option \<Rightarrow> string \<Rightarrow> js_error + (string \<times> string option)" where
  \<comment> \<open>the \<^verbatim>\<open>if (hasOrderBy) ... else if (actualCursorField) ... else ...\<close> of \<^verbatim>\<open>paginateQuery\<close>:
      the statement and \<^verbatim>\<open>actualCursorField\<close> after it\<close>
  "resolve_order paginatedSql cursorField defaultCursorField =
     (if rx_test rx_has_order_by paginatedSql then
        (case rx_match1 rx_order_by_clause paginatedSql of
           None \<Rightarrow> Inr (paginatedSql, cursorField)
         | Some m \<Rightarrow>
             (let orderByClause = trim m in
              if \<not> str_truthy cursorField then
                (case first_order_field orderByClause of
                   Inl e \<Rightarrow> Inl e
                 | Inr f \<Rightarrow> Inr (paginatedSql, Some f))
              else Inr (paginatedSql, cursorField)))
      else
        (case (if str_truthy cursorField then cursorField else None) of
           Some f \<Rightarrow> Inr (paginatedSql @ '' ORDER BY '' @ f @ '' ASC'', cursorField)
         | None \<Rightarrow>
             Inr (paginatedSql @ '' ORDER BY '' @ defaultCursorField @ '' ASC'',
                  Some defaultCursorField)))"

definition destructure_cursor ::
  "'n jsval \<Rightarrow> js_error + ('n jsval \<times> 'n jsval \<times> 'n jsval)" where
  \<comment> \<open>\<^verbatim>\<open>const { field, value, operator } = decodedCursor\<close>\<close>
  "destructure_cursor d =
     (case d of
        JUndefined \<Rightarrow> Inl TypeError
      | JNull \<Rightarrow> Inl TypeError
      | JObj kvs \<Rightarrow> Inr (get_prop kvs ''field'', get_prop kvs ''value'', get_prop kvs ''operator'')
      | _ \<Rightarrow> Inr (JUndefined, JUndefined, JUndefined))"

definition cursor_param_name :: "string \<Rightarrow> string" where
  \<comment> \<open>\<^verbatim>\<open>`cursor_${fieldToUse.replace(/[^a-zA-Z0-9_]/g, '_')}`\<close>\<close>
  "cursor_param_name f = ''cursor_'' @ replace_all_chr (\<lambda>c. \<not> is_word c) ''_'' f"

definition try_cursor ::
  "'n::zero runtime \<Rightarrow> 'n store \<Rightarrow> nat \<Rightarrow> string \<Rightarrow> string option \<Rightarrow> string
     \<Rightarrow> js_error + (string \<times> 'n store)" where
  \<comment> \<open>the body of the \<^verbatim>\<open>try\<close> block: \<open>Inl\<close> is what it throws. Every throw comes before the
      two assignments; the log line after them is not modelled.\<close>
  "try_cursor rt st updatedParameters paginatedSql actualCursorField cursor =
     (case JSON_parse rt (base64_to_utf8 rt cursor) of
        None \<Rightarrow> Inl SyntaxError
      | Some decodedCursor \<Rightarrow>
          (case destructure_cursor decodedCursor of
             Inl e \<Rightarrow> Inl e
           | Inr (field, value, operator) \<Rightarrow>
               if \<not> truthy field \<or> value = JUndefined then Inl (Error ''Invalid cursor format'')
               else
                 (let fieldToUse =
                        (if truthy field then field
                         else (case actualCursorField of None \<Rightarrow> JNull | Some f \<Rightarrow> JStr f));
                      comparator = (if truthy operator then operator else JStr ''>'');
                      whereClause =
                        (if str_includes (toLowerCase paginatedSql) ''where''
                         then ''AND'' else ''WHERE'')
                  in case fieldToUse of
                       JStr f \<Rightarrow>
                         (let cursorParamName = cursor_param_name f in
                          case js_toString rt comparator of
                            None \<Rightarrow> Inl TypeError
                          | Some cmp \<Rightarrow>
                              Inr (paginatedSql @ '' '' @ whereClause @ '' ['' @ f @ ''] ''
                                     @ cmp @ '' @'' @ cursorParamName,
                                   st[updatedParameters :=
                                        set_prop (deref st updatedParameters)
                                          cursorParamName value]))
                     | _ \<Rightarrow> Inl TypeError)))"

definition apply_cursor ::
  "'n::zero runtime \<Rightarrow> 'n store \<Rightarrow> nat \<Rightarrow> string \<Rightarrow> string option \<Rightarrow> string option
     \<Rightarrow> string \<times> 'n store" where
  \<comment> \<open>\<^verbatim>\<open>if (cursor) { try { ... } catch (err) { /* continue without cursor */ } }\<close>\<close>
  "apply_cursor rt st updatedParameters paginatedSql actualCursorField cursor =
     (case (if str_truthy cursor then cursor else None) of
        None \<Rightarrow> (paginatedSql, st)
      | Some c \<Rightarrow>
          (case try_cursor rt st updatedParameters paginatedSql actualCursorField c of
             Inl e \<Rightarrow> (paginatedSql, st)
           | Inr r \<Rightarrow> r))"

definition apply_row_bound :: "string \<Rightarrow> nat \<Rightarrow> string" where
  "apply_row_bound paginatedSql pageSize =
     (if \<not> str_includes (toLowerCase paginatedSql) ''offset''
         \<and> \<not> str_includes (toLowerCase paginatedSql) ''fetch''
      then paginatedSql @ '' OFFSET 0 ROWS FETCH NEXT '' @ digits_of pageSize @ '' ROWS ONLY''
      else paginatedSql)"

definition paginateQuery ::
  "'n::zero runtime \<Rightarrow> 'n store \<Rightarrow> string \<Rightarrow> pq_options \<Rightarrow> js_error + ('n store \<times> pq_result)" where
  "paginateQuery rt st sql options =
     (let cursorField = opt_cursorField options;
          pageSize = (case opt_pageSize options of None \<Rightarrow> 100 | Some n \<Rightarrow> n);
          cursor = opt_cursor options;
          (st0, parameters) =
            (case opt_parameters options of None \<Rightarrow> alloc st [] | Some a \<Rightarrow> (st, a));
          defaultCursorField =
            (case opt_defaultCursorField options of None \<Rightarrow> ''id'' | Some d \<Rightarrow> d);
          (st1, updatedParameters) = alloc st0 (deref st0 parameters)
      in case resolve_order (trim sql) cursorField defaultCursorField of
           Inl e \<Rightarrow> Inl e
         | Inr (orderedSql, actualCursorField) \<Rightarrow>
             (let (cursorSql, st2) =
                    apply_cursor rt st1 updatedParameters orderedSql actualCursorField cursor
              in Inr (st2, \<lparr>r_paginatedSql = apply_row_bound cursorSql pageSize,
                            r_parameters = updatedParameters,
                            r_cursorField = actualCursorField\<rparr>)))"

definition cursor_record :: "string \<Rightarrow> 'n jsval \<Rightarrow> string \<Rightarrow> 'n jsval" where
  \<comment> \<open>\<^verbatim>\<open>{ field: cursorField, value: value, operator: op }\<close>\<close>
  "cursor_record f v op = JObj [(''field'', JStr f), (''value'', v), (''operator'', JStr op)]"

definition encode_cursor :: "'n runtime \<Rightarrow> string \<Rightarrow> 'n jsval \<Rightarrow> string \<Rightarrow> string" where
  \<comment> \<open>\<^verbatim>\<open>Buffer.from(JSON.stringify(cursor)).toString('base64')\<close>, the common end of
      \<^verbatim>\<open>generateNextCursor\<close> and \<^verbatim>\<open>generatePrevCursor\<close>\<close>
  "encode_cursor rt f v op = utf8_to_base64 rt (JSON_stringify rt (cursor_record f v op))"

definition nonempty_tokens :: "'n runtime \<Rightarrow> bool" where
  \<comment> \<open>a cursor token is never the empty string, as holds of base64 text of a JSON object\<close>
  "nonempty_tokens rt = (\<forall>f v op. encode_cursor rt f v op \<noteq> [])"

definition generate_cursor ::
  "'n runtime \<Rightarrow> string \<Rightarrow> 'n obj option \<Rightarrow> string \<Rightarrow> string option" where
  "generate_cursor rt op row cursorField =
     (case row of
        None \<Rightarrow> None
      | Some r \<Rightarrow>
          if cursorField = [] then None
          else (let value = get_prop r cursorField in
                if value = JUndefined then None
                else Some (encode_cursor rt cursorField value op)))"

definition generateNextCursor :: "'n runtime \<Rightarrow> 'n obj option \<Rightarrow> string \<Rightarrow> string option" where
  "generateNextCursor rt lastRow cursorField = generate_cursor rt ''>'' lastRow cursorField"

definition generatePrevCursor :: "'n runtime \<Rightarrow> 'n obj option \<Rightarrow> string \<Rightarrow> string option" where
  "generatePrevCursor rt firstRow cursorField = generate_cursor rt ''<='' firstRow cursorField"

definition decodeCursor :: "'n runtime \<Rightarrow> string option \<Rightarrow> 'n jsval" where
  \<comment> \<open>\<^verbatim>\<open>null\<close> is \<open>JNull\<close>\<close>
  "decodeCursor rt cursor =
     (case (if str_truthy cursor then cursor else None) of
        None \<Rightarrow> JNull
      | Some c \<Rightarrow>
          (case JSON_parse rt (base64_to_utf8 rt c) of None \<Rightarrow> JNull | Some v \<Rightarrow> v))"

definition serializable :: "('n \<Rightarrow> bool) \<Rightarrow> 'n jsval \<Rightarrow> bool" where
  \<comment> \<open>a scalar that JSON can carry: \<^verbatim>\<open>null\<close>, a boolean, a string, or a number that \<open>num_ok\<close>
      accepts (in JavaScript every finite number other than \<^verbatim>\<open>-0\<close>)\<close>
  "serializable num_ok v =
     (case v of JNull \<Rightarrow> True | JBool b \<Rightarrow> True | JNum n \<Rightarrow> num_ok n | JStr s \<Rightarrow> True
      | _ \<Rightarrow> False)"

definition codec_laws :: "'n runtime \<Rightarrow> ('n \<Rightarrow> bool) \<Rightarrow> bool" where
  \<comment> \<open>what the round trip takes from the runtime: \<^verbatim>\<open>Buffer\<close> decodes the base64 text it
      has produced, the empty string has the empty base64 text, \<^verbatim>\<open>JSON.parse\<close> refuses the
      empty text, and reads back a cursor record with a serializable value\<close>
  "codec_laws rt num_ok =
     ((\<forall>s. base64_to_utf8 rt (utf8_to_base64 rt s) = s)
      \<and> utf8_to_base64 rt [] = []
      \<and> JSON_parse rt [] = None
      \<and> (\<forall>f v op. serializable num_ok v \<longrightarrow>
             JSON_parse rt (JSON_stringify rt (cursor_record f v op))
               = Some (cursor_record f v op)))"

definition has_field_and_value :: "'n::zero jsval \<Rightarrow> bool" where
  \<comment> \<open>a decoded cursor that passes the validation of \<^verbatim>\<open>paginateQuery\<close>: an object with a
      truthy \<^verbatim>\<open>field\<close> and a \<^verbatim>\<open>value\<close> other than \<^verbatim>\<open>undefined\<close>\<close>
  "has_field_and_value d =
     (case d of
        JObj kvs \<Rightarrow> truthy (get_prop kvs ''field'') \<and> get_prop kvs ''value'' \<noteq> JUndefined
      | _ \<Rightarrow> False)"

definition rx_select_clause :: rx where
  \<comment> \<open>\<^verbatim>\<open>/SELECT\s+(.+?)\s+FROM/is\<close>\<close>
  "rx_select_clause =
     rx_seq [lit_i ''SELECT'', Plus is_space, Cap (PlusLazy (\<lambda>c. True)), Plus is_space,
             lit_i ''FROM'']"

definition rx_as_or_space :: rx where
  \<comment> \<open>\<^verbatim>\<open>/\s+AS\s+|\s+/\<close>\<close>
  "rx_as_or_space = rx_alt [rx_seq [Plus is_space, lit ''AS'', Plus is_space], Plus is_space]"

definition commonIdFields :: "string list" where
  "commonIdFields =
     [''id'', ''ID'', ''Id'', ''key'', ''KEY'', ''Key'', ''primary_key'', ''PrimaryKey'']"

definition clean_field :: "string \<Rightarrow> js_error + string" where
  \<comment> \<open>\<^verbatim>\<open>f.split(/\s+AS\s+|\s+/).pop().replace(/\[|\]/g, '')\<close>\<close>
  "clean_field f =
     (case pop (rx_split rx_as_or_space f) of
        Inl e \<Rightarrow> Inl e
      | Inr x \<Rightarrow> Inr (strip_brackets x))"

fun find_field :: "string \<Rightarrow> string list \<Rightarrow> js_error + string option" where
  \<comment> \<open>\<^verbatim>\<open>fields.find(f => cleanField.toLowerCase() === idField.toLowerCase())\<close>\<close>
  "find_field idField [] = Inr None"
| "find_field idField (f # fs) =
     (case clean_field f of
        Inl e \<Rightarrow> Inl e
      | Inr cleanField \<Rightarrow>
          if toLowerCase cleanField = toLowerCase idField then Inr (Some f)
          else find_field idField fs)"

fun scan_id_fields :: "string list \<Rightarrow> string list \<Rightarrow> js_error + string option" where
  \<comment> \<open>the loop \<^verbatim>\<open>for (const idField of commonIdFields)\<close>; \<open>Inr None\<close> when it falls through\<close>
  "scan_id_fields [] flds = Inr None"
| "scan_id_fields (idField # rest) flds =
     (case find_field idField flds of
        Inl e \<Rightarrow> Inl e
      | Inr matchingField \<Rightarrow>
          (case (if str_truthy matchingField then matchingField else None) of
             Some m \<Rightarrow> (case clean_field m of Inl e \<Rightarrow> Inl e | Inr x \<Rightarrow> Inr (Some x))
           | None \<Rightarrow> scan_id_fields rest flds))"

definition extractDefaultCursorField :: "string \<Rightarrow> js_error + string" where
  "extractDefaultCursorField sql =
     (case rx_match1 rx_order_by_clause sql of
        Some m \<Rightarrow> first_order_field (trim m)
      | None \<Rightarrow>
          (case rx_match1 rx_select_clause sql of
             None \<Rightarrow> Inr ''id''
           | Some m \<Rightarrow>
               (let selectClause = trim m in
                if selectClause \<noteq> ''*'' then
                  (case scan_id_fields commonIdFields (map trim (split_chr CHR '','' selectClause)) of
                     Inl e \<Rightarrow> Inl e
                   | Inr (Some x) \<Rightarrow> Inr x
                   | Inr None \<Rightarrow> Inr ''id'')
                else Inr ''id'')))"

section \<open>The execution port\<close>

text \<open>
  \<^verbatim>\<open>executeQuery\<close> of \<^verbatim>\<open>database.mjs\<close> hands a statement and its parameters to the
  database driver. It is the execution port: a function of the state of the data source
  that yields the message of the error thrown or the result, and the next state. The
  world holds that state and the trace of the invocations with their outcomes; no
  function below reads the trace.
\<close>

record 'n query_result =
  recordset :: "'n obj list option"

type_synonym ('w, 'n) port = "'w \<Rightarrow> string \<Rightarrow> 'n obj \<Rightarrow> (string + 'n query_result) \<times> 'w"

record ('w, 'n) world =
  port_state :: 'w
  trace :: "(string \<times> 'n obj \<times> (string + 'n query_result)) list"

definition executeQuery ::
  "('w, 'n) port \<Rightarrow> ('w, 'n) world \<Rightarrow> string \<Rightarrow> 'n obj
     \<Rightarrow> (string + 'n query_result) \<times> ('w, 'n) world" where
  "executeQuery port w sqlQuery params =
     (let (res, s') = port (port_state w) sqlQuery params
      in (res, \<lparr>port_state = s', trace = trace w @ [(sqlQuery, params, res)]\<rparr>))"

definition rows_of :: "'n query_result \<Rightarrow> 'n obj list" where
  \<comment> \<open>\<^verbatim>\<open>result.recordset || []\<close>\<close>
  "rows_of res = (case recordset res of None \<Rightarrow> [] | Some rs \<Rightarrow> rs)"

section \<open>The tool handlers\<close>

text \<open>
  The handlers of \<^verbatim>\<open>execute_query\<close>, \<^verbatim>\<open>paginated_query\<close> and \<^verbatim>\<open>query_streamer\<close>, on
  arguments that passed the schema. A handler returns the refusal of the validation, the
  error its \<^verbatim>\<open>catch\<close> block reports, or its result. The markdown text, the identifier and
  the file of the result, the log and the timings are not modelled, nor is
  \<^verbatim>\<open>estimatedTotalPages\<close>.
\<close>

datatype thrown = PortError string | JsError js_error

datatype 'a response = ValidationError | ExecutionError thrown | Success 'a

definition prohibitedOperations :: "string list" where
  "prohibitedOperations = [''drop '', ''delete '', ''truncate '', ''update '', ''alter '']"

definition is_prohibited :: "string \<Rightarrow> bool" where
  \<comment> \<open>\<^verbatim>\<open>prohibitedOperations.some(op => lowerSql.includes(op))\<close>\<close>
  "is_prohibited sql =
     (let lowerSql = toLowerCase sql in list_ex (\<lambda>op. str_includes lowerSql op) prohibitedOperations)"

definition or_default :: "string option \<Rightarrow> string \<Rightarrow> string" where
  \<comment> \<open>\<^verbatim>\<open>cursorField || defaultCursorField\<close>\<close>
  "or_default c d = (case c of None \<Rightarrow> d | Some x \<Rightarrow> if x \<noteq> [] then x else d)"

record 'n execute_args =
  ea_sql :: string
  ea_parameters :: "'n obj"

record 'n execute_result =
  er_rowCount :: nat
  er_results :: "'n obj list"

definition executeQueryTool ::
  "('w, 'n) port \<Rightarrow> ('w, 'n) world \<Rightarrow> 'n execute_args
     \<Rightarrow> 'n execute_result response \<times> ('w, 'n) world" where
  "executeQueryTool port w args =
     (if is_prohibited (ea_sql args) then (ValidationError, w)
      else
        (case executeQuery port w (ea_sql args) (ea_parameters args) of
           (Inl err, w') \<Rightarrow> (ExecutionError (PortError err), w')
         | (Inr res, w') \<Rightarrow>
             (Success \<lparr>er_rowCount = length (rows_of res), er_results = rows_of res\<rparr>, w')))"

definition rx_strip_order_by :: rx where
  \<comment> \<open>\<^verbatim>\<open>/\s+ORDER\s+BY\s+.+?(?:(?:OFFSET|FETCH|$))/i\<close>\<close>
  "rx_strip_order_by =
     rx_seq [Plus is_space, lit_i ''ORDER'', Plus is_space, lit_i ''BY'', Plus is_space,
             PlusLazy is_dot, rx_alt [lit_i ''OFFSET'', lit_i ''FETCH'', Eol]]"

definition rx_strip_offset :: rx where
  \<comment> \<open>\<^verbatim>\<open>/\s+OFFSET\s+.+?(?:FETCH|$)/i\<close>\<close>
  "rx_strip_offset =
     rx_seq [Plus is_space, lit_i ''OFFSET'', Plus is_space, PlusLazy is_dot,
             rx_alt [lit_i ''FETCH'', Eol]]"

definition rx_strip_fetch :: rx where
  \<comment> \<open>\<^verbatim>\<open>/\s+FETCH\s+.+?$/i\<close>\<close>
  "rx_strip_fetch = rx_seq [Plus is_space, lit_i ''FETCH'', Plus is_space, PlusLazy is_dot, Eol]"

definition count_query :: "string \<Rightarrow> string" where
  "count_query sql =
     (let c1 = rx_replace rx_strip_order_by '' '' sql;
          c2 = rx_replace rx_strip_offset '' '' c1;
          c3 = rx_replace rx_strip_fetch '' '' c2
      in ''SELECT COUNT(*) AS TotalCount FROM ('' @ c3 @ '') AS CountQuery'')"

definition fetch_total_count ::
  "('w, 'n) port \<Rightarrow> ('w, 'n) world \<Rightarrow> string \<Rightarrow> 'n obj \<Rightarrow> 'n jsval \<times> ('w, 'n) world" where
  \<comment> \<open>the inner \<^verbatim>\<open>try\<close> of \<^verbatim>\<open>if (includeCount)\<close>: a failed count leaves \<^verbatim>\<open>totalCount\<close> null\<close>
  "fetch_total_count port w sql params =
     (case executeQuery port w (count_query sql) params of
        (Inl err, w') \<Rightarrow> (JNull, w')
      | (Inr countResult, w') \<Rightarrow>
          (case rows_of countResult of
             [] \<Rightarrow> (JNull, w')
           | row # _ \<Rightarrow> (get_prop row ''TotalCount'', w')))"

record 'n page_args =
  pa_sql :: string
  pa_cursorField :: "string option"
  pa_pageSize :: nat
  pa_cursor :: "string option"
  pa_parameters :: "'n obj"
  pa_includeCount :: bool

record 'n page_meta =
  pm_cursorField :: string
  pm_pageSize :: nat
  pm_returnedRows :: nat
  pm_hasMore :: bool
  pm_nextCursor :: "string option"
  pm_prevCursor :: "string option"
  pm_totalCount :: "'n jsval"

record 'n page_result =
  pr_results :: "'n obj list"
  pr_pagination :: "'n page_meta"

definition paginatedQueryTool ::
  "'n::zero runtime \<Rightarrow> ('w, 'n) port \<Rightarrow> ('w, 'n) world \<Rightarrow> 'n page_args
     \<Rightarrow> 'n page_result response \<times> ('w, 'n) world" where
  "paginatedQueryTool rt port w args =
     (if is_prohibited (pa_sql args) then (ValidationError, w)
      else
        (let (totalCount, w1) =
               (if pa_includeCount args
                then fetch_total_count port w (pa_sql args) (pa_parameters args)
                else (JNull, w))
         in case extractDefaultCursorField (pa_sql args) of
              Inl e \<Rightarrow> (ExecutionError (JsError e), w1)
            | Inr defaultCursorField \<Rightarrow>
                (let effectiveCursorField = or_default (pa_cursorField args) defaultCursorField
                 in case paginateQuery rt [pa_parameters args] (pa_sql args)
                           \<lparr>opt_cursorField = Some effectiveCursorField,
                            opt_pageSize = Some (pa_pageSize args),
                            opt_cursor = pa_cursor args,
                            opt_parameters = Some 0,
                            opt_defaultCursorField = Some defaultCursorField\<rparr> of
                      Inl e \<Rightarrow> (ExecutionError (JsError e), w1)
                    | Inr (st, r) \<Rightarrow>
                        (case executeQuery port w1 (r_paginatedSql r) (deref st (r_parameters r)) of
                           (Inl err, w2) \<Rightarrow> (ExecutionError (PortError err), w2)
                         | (Inr res, w2) \<Rightarrow>
                             (let rws = rows_of res;
                                  rowCount = length rws;
                                  (nextCursor, prevCursor) =
                                    (case rws of
                                       [] \<Rightarrow> (None, None)
                                     | firstRow # _ \<Rightarrow>
                                         (if pa_pageSize args \<le> rowCount
                                          then generateNextCursor rt (Some (last rws))
                                                 effectiveCursorField
                                          else None,
                                          if str_truthy (pa_cursor args)
                                          then generatePrevCursor rt (Some firstRow)
                                                 effectiveCursorField
                                          else None))
                              in (Success
                                    \<lparr>pr_results = rws,
                                     pr_pagination =
                                       \<lparr>pm_cursorField = effectiveCursorField,
                                        pm_pageSize = pa_pageSize args,
                                        pm_returnedRows = rowCount,
                                        pm_hasMore = str_truthy nextCursor,
                                        pm_nextCursor = nextCursor,
                                        pm_prevCursor = prevCursor,
                                        pm_totalCount = totalCount\<rparr>\<rparr>,
                                  w2))))))"

datatype agg_op = Sum | Avg | Min | Max | Count | CountDistinct

datatype output_type = Json | Csv | Summary

fun op_name :: "agg_op \<Rightarrow> string" where
  "op_name Sum = ''sum''"
| "op_name Avg = ''avg''"
| "op_name Min = ''min''"
| "op_name Max = ''max''"
| "op_name Count = ''count''"
| "op_name CountDistinct = ''countDistinct''"

definition agg_key :: "agg_op \<Rightarrow> string \<Rightarrow> string" where
  \<comment> \<open>\<^verbatim>\<open>`${operation}:${field}`\<close>\<close>
  "agg_key operation field = op_name operation @ '':'' @ field"

text \<open>
  A slot of \<^verbatim>\<open>aggregationResults\<close> holds a number or a \<^verbatim>\<open>Set\<close>, whose members are kept
  in insertion order and compared by content. Reading \<^verbatim>\<open>.size\<close> of a number at
  finalization leaves \<^verbatim>\<open>undefined\<close> in the slot.
\<close>

datatype 'n acc = AccNum 'n | AccSet "'n jsval list" | AccUndefined

type_synonym 'n aggregation_results = "string \<rightharpoonup> 'n acc"

primrec num_of_nat :: "nat \<Rightarrow> 'n::{zero,one,plus}" where
  \<comment> \<open>a count as a number\<close>
  "num_of_nat 0 = 0"
| "num_of_nat (Suc k) = num_of_nat k + 1"

definition init_aggregation ::
  "'n::zero runtime \<Rightarrow> 'n aggregation_results \<Rightarrow> string \<times> agg_op \<Rightarrow> 'n aggregation_results" where
  "init_aggregation rt m agg =
     (case agg of (field, operation) \<Rightarrow>
        (case operation of
           Sum \<Rightarrow> m(agg_key operation field \<mapsto> AccNum 0)
         | Avg \<Rightarrow> m(agg_key operation field \<mapsto> AccNum 0)
         | Min \<Rightarrow> m(agg_key Min field \<mapsto> AccNum (MAX_VALUE rt))
         | Max \<Rightarrow> m(agg_key Max field \<mapsto> AccNum (MIN_VALUE rt))
         | Count \<Rightarrow> m(agg_key Count field \<mapsto> AccNum 0)
         | CountDistinct \<Rightarrow> m(agg_key CountDistinct field \<mapsto> AccSet [])))"

definition add_to_slot :: "'n::plus aggregation_results \<Rightarrow> string \<Rightarrow> 'n \<Rightarrow> 'n aggregation_results" where
  \<comment> \<open>\<^verbatim>\<open>aggregationResults[key] += value\<close> on a slot that holds a number, as every slot
      of a \<^verbatim>\<open>sum\<close>, \<^verbatim>\<open>avg\<close> or \<^verbatim>\<open>count\<close> does after initialization\<close>
  "add_to_slot m key v = (case m key of Some (AccNum x) \<Rightarrow> m(key \<mapsto> AccNum (x + v)) | _ \<Rightarrow> m)"

fun is_object :: "'n jsval \<Rightarrow> bool" where
  \<comment> \<open>an object created for the value, as the driver does for each row\<close>
  "is_object (JArr xs) = True"
| "is_object (JObj kvs) = True"
| "is_object v = False"

definition aggregate_value ::
  "'n::{one,plus,ord} aggregation_results \<Rightarrow> 'n aggregation_results \<Rightarrow> 'n obj
     \<Rightarrow> string \<times> agg_op \<Rightarrow> 'n aggregation_results" where
  \<comment> \<open>the body of \<^verbatim>\<open>aggregations.forEach\<close> for one row; \<open>before\<close> is \<^verbatim>\<open>aggregationResults\<close> as it
      was when the row began. A \<^verbatim>\<open>Set\<close> compares numbers, strings and the like by content and
      objects by identity. An object in a row is the row's own, so the set holds it already
      only if an earlier entry of the list has added it for this row, and then the slot is no
      longer what it was when the row began.\<close>
  "aggregate_value before m row agg =
     (case agg of (field, operation) \<Rightarrow>
        (let value = get_prop row field in
         if value \<noteq> JNull \<and> value \<noteq> JUndefined then
           (let key = agg_key operation field in
            case operation of
              Sum \<Rightarrow> (case value of JNum v \<Rightarrow> add_to_slot m key v | _ \<Rightarrow> m)
            | Avg \<Rightarrow> (case value of JNum v \<Rightarrow> add_to_slot m key v | _ \<Rightarrow> m)
            | Min \<Rightarrow>
                (case (value, m key) of
                   (JNum v, Some (AccNum x)) \<Rightarrow> if v < x then m(key \<mapsto> AccNum v) else m
                 | _ \<Rightarrow> m)
            | Max \<Rightarrow>
                (case (value, m key) of
                   (JNum v, Some (AccNum x)) \<Rightarrow> if x < v then m(key \<mapsto> AccNum v) else m
                 | _ \<Rightarrow> m)
            | Count \<Rightarrow> add_to_slot m key 1
            | CountDistinct \<Rightarrow>
                (case m key of
                   Some (AccSet xs) \<Rightarrow>
                     m(key \<mapsto> AccSet (if (if is_object value then m key \<noteq> before key
                                            else value \<in> set xs)
                                        then xs else xs @ [value]))
                 | _ \<Rightarrow> m))
         else m))"

definition aggregate_rows ::
  "(string \<times> agg_op) list \<Rightarrow> 'n::{one,plus,ord} aggregation_results \<Rightarrow> 'n obj list
     \<Rightarrow> 'n aggregation_results" where
  \<comment> \<open>\<^verbatim>\<open>batchRows.forEach(row => aggregations.forEach(agg => ...))\<close>\<close>
  "aggregate_rows aggregations m rws =
     foldl (\<lambda>m' row. foldl (\<lambda>m'' agg. aggregate_value m' m'' row agg) m' aggregations) m rws"

definition finalize_aggregation ::
  "nat \<Rightarrow> 'n::{zero,one,plus,ord,inverse} aggregation_results \<Rightarrow> string \<times> agg_op
     \<Rightarrow> 'n aggregation_results" where
  \<comment> \<open>the body of the \<^verbatim>\<open>forEach\<close> under \<^verbatim>\<open>// Finalize aggregations\<close>\<close>
  "finalize_aggregation totalProcessedRows m agg =
     (case agg of (field, operation) \<Rightarrow>
        (let key = agg_key operation field in
         if operation = Avg then
           (let count = (case m (''count:'' @ field) of
                           Some (AccNum c) \<Rightarrow> if c \<noteq> 0 then c else num_of_nat totalProcessedRows
                         | _ \<Rightarrow> num_of_nat totalProcessedRows)
            in if 0 < count
               then (case m key of Some (AccNum x) \<Rightarrow> m(key \<mapsto> AccNum (x / count)) | _ \<Rightarrow> m)
               else m)
         else if operation = CountDistinct then
           (case m key of
              Some (AccSet xs) \<Rightarrow> m(key \<mapsto> AccNum (num_of_nat (length xs)))
            | Some _ \<Rightarrow> m(key \<mapsto> AccUndefined)
            | None \<Rightarrow> m)
         else m))"

definition csv_cell :: "'n runtime \<Rightarrow> 'n jsval \<Rightarrow> string option" where
  \<comment> \<open>one cell of a CSV row; \<open>None\<close> when \<^verbatim>\<open>String(value)\<close> throws\<close>
  "csv_cell rt value =
     (if value = JNull then Some []
      else (case value of
              JStr x \<Rightarrow> Some (CHR 0x22 # replace_all_chr (\<lambda>c. c = CHR 0x22) [CHR 0x22, CHR 0x22] x
                              @ [CHR 0x22])
            | _ \<Rightarrow> js_toString rt value))"

definition csv_rows :: "'n runtime \<Rightarrow> string list \<Rightarrow> 'n obj list \<Rightarrow> string option" where
  \<comment> \<open>the text the \<^verbatim>\<open>forEach\<close> of the CSV branch appends for a batch\<close>
  "csv_rows rt hdrs rws =
     map_option concat
       (those (map (\<lambda>row. map_option (\<lambda>cells. join '','' cells @ [CHR 0x0A])
                            (those (map (\<lambda>h. csv_cell rt (get_prop row h)) hdrs))) rws))"

record 'n stream_args =
  sa_sql :: string
  sa_batchSize :: nat
  sa_maxRows :: nat
  sa_parameters :: "'n obj"
  sa_cursorField :: "string option"
  sa_outputType :: output_type
  sa_aggregations :: "(string \<times> agg_op) list option"

record 'n stream_state =
  ss_store :: "'n store"
  ss_cursor :: "string option"
  totalProcessedRows :: nat
  hasMore :: bool
  batchCount :: nat
  allResults :: "'n obj list"
  csvOutput :: string
  headers :: "string list"
  aggregationResults :: "'n aggregation_results"

definition stream_batch ::
  "'n::{zero,one,plus,ord} runtime \<Rightarrow> ('w, 'n) port \<Rightarrow> 'n stream_args \<Rightarrow> string \<Rightarrow> string
     \<Rightarrow> 'n stream_state \<Rightarrow> ('w, 'n) world \<Rightarrow> (thrown + 'n stream_state) \<times> ('w, 'n) world" where
  \<comment> \<open>one turn of the \<^verbatim>\<open>while\<close> loop; \<open>Inl\<close> is what it throws\<close>
  "stream_batch rt port args effectiveCursorField defaultCursorField s w =
     (case paginateQuery rt (ss_store s) (sa_sql args)
             \<lparr>opt_cursorField = Some effectiveCursorField,
              opt_pageSize = Some (sa_batchSize args),
              opt_cursor = ss_cursor s,
              opt_parameters = Some 0,
              opt_defaultCursorField = Some defaultCursorField\<rparr> of
        Inl e \<Rightarrow> (Inl (JsError e), w)
      | Inr (st, r) \<Rightarrow>
          (case executeQuery port w (r_paginatedSql r) (deref st (r_parameters r)) of
             (Inl err, w') \<Rightarrow> (Inl (PortError err), w')
           | (Inr batchResult, w') \<Rightarrow>
               (let batchRows = rows_of batchResult;
                    batchRowCount = length batchRows;
                    total = totalProcessedRows s + batchRowCount;
                    more = (sa_batchSize args \<le> batchRowCount \<and> total < sa_maxRows args);
                    first = (batchCount s = 0 \<and> 0 < batchRowCount);
                    hdrs = (if first then map fst (hd batchRows) else headers s);
                    csv0 = (if first \<and> sa_outputType args = Csv
                            then join '','' hdrs @ [CHR 0x0A] else csvOutput s);
                    cur = (if 0 < batchRowCount \<and> more
                           then generateNextCursor rt (Some (last batchRows)) effectiveCursorField
                           else ss_cursor s);
                    csv1 = (if 0 < batchRowCount \<and> sa_outputType args = Csv
                            then map_option (\<lambda>t. csv0 @ t) (csv_rows rt hdrs batchRows)
                            else Some csv0)
                in case csv1 of
                     None \<Rightarrow> (Inl (JsError TypeError), w')
                   | Some csv \<Rightarrow>
                       (Inr \<lparr>ss_store = st,
                             ss_cursor = cur,
                             totalProcessedRows = total,
                             hasMore = (if batchRowCount < sa_batchSize args then False else more),
                             batchCount = Suc (batchCount s),
                             allResults = (if sa_outputType args = Json
                                           then allResults s @ batchRows else allResults s),
                             csvOutput = csv,
                             headers = hdrs,
                             aggregationResults =
                               (case sa_aggregations args of
                                  None \<Rightarrow> aggregationResults s
                                | Some aggs \<Rightarrow> aggregate_rows aggs (aggregationResults s) batchRows)\<rparr>,
                        w'))))"

partial_function (option) stream_loop ::
  "'n::{zero,one,plus,ord} runtime \<Rightarrow> ('w, 'n) port \<Rightarrow> 'n stream_args \<Rightarrow> string \<Rightarrow> string
     \<Rightarrow> 'n stream_state \<Rightarrow> ('w, 'n) world
     \<Rightarrow> ((thrown + 'n stream_state) \<times> ('w, 'n) world) option" where
  \<comment> \<open>\<^verbatim>\<open>while (hasMore && totalProcessedRows < maxRows)\<close>; \<open>None\<close> when the loop does not end\<close>
  "stream_loop rt port args effectiveCursorField defaultCursorField s w =
     (if hasMore s \<and> totalProcessedRows s < sa_maxRows args then
        (case stream_batch rt port args effectiveCursorField defaultCursorField s w of
           (Inl e, w') \<Rightarrow> Some (Inl e, w')
         | (Inr s', w') \<Rightarrow> stream_loop rt port args effectiveCursorField defaultCursorField s' w')
      else Some (Inr s, w))"

declare stream_loop.simps [code]

record 'n stream_summary =
  totalRows :: nat
  sm_batchCount :: nat
  sm_aggregations :: "'n aggregation_results"
  sm_results :: "'n obj list"
  sm_csv :: string

definition initial_stream_state ::
  "'n::{zero,one,plus,ord} runtime \<Rightarrow> 'n stream_args \<Rightarrow> 'n stream_state" where
  \<comment> \<open>the variables of the handler before the loop\<close>
  "initial_stream_state rt args =
     \<lparr>ss_store = [sa_parameters args],
      ss_cursor = None,
      totalProcessedRows = 0,
      hasMore = True,
      batchCount = 0,
      allResults = [],
      csvOutput = [],
      headers = [],
      aggregationResults =
        (case sa_aggregations args of
           None \<Rightarrow> Map.empty
         | Some aggs \<Rightarrow> foldl (init_aggregation rt) Map.empty aggs)\<rparr>"

definition summary_of ::
  "'n::{zero,one,plus,ord,inverse} stream_args \<Rightarrow> 'n stream_state \<Rightarrow> 'n stream_summary" where
  \<comment> \<open>finalization of the aggregations and the summary returned\<close>
  "summary_of args s =
     \<lparr>totalRows = totalProcessedRows s,
      sm_batchCount = batchCount s,
      sm_aggregations =
        (case sa_aggregations args of
           None \<Rightarrow> aggregationResults s
         | Some aggs \<Rightarrow>
             foldl (finalize_aggregation (totalProcessedRows s)) (aggregationResults s) aggs),
      sm_results = allResults s,
      sm_csv = csvOutput s\<rparr>"

definition queryStreamerTool ::
  "'n::{zero,one,plus,ord,inverse} runtime \<Rightarrow> ('w, 'n) port \<Rightarrow> ('w, 'n) world \<Rightarrow> 'n stream_args
     \<Rightarrow> ('n stream_summary response \<times> ('w, 'n) world) option" where
  \<comment> \<open>\<open>None\<close> when the handler does not return\<close>
  "queryStreamerTool rt port w args =
     (if is_prohibited (sa_sql args) then Some (ValidationError, w)
      else
        (case extractDefaultCursorField (sa_sql args) of
           Inl e \<Rightarrow> Some (ExecutionError (JsError e), w)
         | Inr defaultCursorField \<Rightarrow>
             (let effectiveCursorField = or_default (sa_cursorField args) defaultCursorField
              in case stream_loop rt port args effectiveCursorField defaultCursorField
                        (initial_stream_state rt args) w of
                   None \<Rightarrow> None
                 | Some (Inl e, w') \<Rightarrow> Some (ExecutionError e, w')
                 | Some (Inr s, w') \<Rightarrow> Some (Success (summary_of args s), w'))))"

section \<open>Vocabulary of the statements\<close>

text \<open>
  The batches a handler fetched between two worlds, read off the trace, and the values
  of a field that the aggregations take from a sequence of rows.
\<close>

definition batches_of ::
  "(string \<times> 'n obj \<times> (string + 'n query_result)) list \<Rightarrow> 'n obj list list" where
  "batches_of entries =
     map (\<lambda>(sqlQuery, params, res). case res of Inl err \<Rightarrow> [] | Inr r \<Rightarrow> rows_of r) entries"

definition fetched :: "('w, 'n) world \<Rightarrow> ('w, 'n) world \<Rightarrow> 'n obj list list" where
  "fetched w w' = batches_of (drop (length (trace w)) (trace w'))"

definition numeric_values :: "string \<Rightarrow> 'n obj list \<Rightarrow> 'n list" where
  \<comment> \<open>the values of the field that are numbers, in row order\<close>
  "numeric_values f rws =
     concat (map (\<lambda>row. case get_prop row f of JNum v \<Rightarrow> [v] | _ \<Rightarrow> []) rws)"

definition present_values :: "string \<Rightarrow> 'n obj list \<Rightarrow> 'n jsval list" where
  \<comment> \<open>the values of the field that are neither \<^verbatim>\<open>null\<close> nor \<^verbatim>\<open>undefined\<close>\<close>
  "present_values f rws =
     filter (\<lambda>v. v \<noteq> JNull \<and> v \<noteq> JUndefined) (map (\<lambda>row. get_prop row f) rws)"

definition slot_step :: "agg_op \<Rightarrow> string \<Rightarrow> 'n::{one,plus} obj \<Rightarrow> 'n \<Rightarrow> 'n" where
  \<comment> \<open>what one row does to the number in the slot of a \<^verbatim>\<open>sum\<close>, \<^verbatim>\<open>avg\<close> or \<^verbatim>\<open>count\<close>\<close>
  "slot_step operation f row x =
     (if operation = Count
      then (if get_prop row f \<noteq> JNull \<and> get_prop row f \<noteq> JUndefined then x + 1 else x)
      else (case get_prop row f of JNum v \<Rightarrow> x + v | _ \<Rightarrow> x))"

definition avg_divisor :: "nat \<Rightarrow> 'n::{zero,one,plus} acc option \<Rightarrow> 'n" where
  \<comment> \<open>\<^verbatim>\<open>aggregationResults[`count:${field}`] || totalProcessedRows\<close>\<close>
  "avg_divisor t c =
     (case c of Some (AccNum x) \<Rightarrow> if x \<noteq> 0 then x else num_of_nat t | _ \<Rightarrow> num_of_nat t)"

section \<open>A runtime instance\<close>

text \<open>
  \<open>node_rt\<close> instantiates the runtime with exact rational numbers: base64 in the standard
  alphabet with a decoder that skips illegal characters and stops at \<^verbatim>\<open>=\<close>, UTF-8 for
  the code units below 256, and JSON. A code point above 255, which \<^typ>\<open>char\<close> cannot hold,
  is read as \<^verbatim>\<open>?\<close>. A numeral is read at its exact value and arithmetic does not round,
  where JavaScript rounds to the nearest double; a number is printed by all its digits in
  positional notation, which is what Node prints for a number between \<^verbatim>\<open>1e-6\<close> and
  \<^verbatim>\<open>1e21\<close> with at most 15 significant digits. The theorems about the functions of the
  program hold for every runtime; the instance serves to evaluate them on concrete inputs.
\<close>

definition utf8_encode :: "string \<Rightarrow> nat list" where
  "utf8_encode s = concat (map (\<lambda>c. let n = (of_char c :: nat) in
      if n < 128 then [n] else [192 + n div 64, 128 + n mod 64]) s)"

fun utf8_decode :: "nat list \<Rightarrow> string" where
  "utf8_decode [] = []"
| "utf8_decode [b] = [if b < 128 then char_of b else CHR ''?'']"
| "utf8_decode (b # b2 # bs) =
     (if b < 128 then char_of b # utf8_decode (b2 # bs)
      else if (b = 194 \<or> b = 195) \<and> 128 \<le> b2 \<and> b2 < 192
           then char_of ((b - 192) * 64 + (b2 - 128)) # utf8_decode bs
      else CHR ''?'' # utf8_decode (b2 # bs))"

definition b64_char :: "nat \<Rightarrow> char" where
  "b64_char n =
     (if n < 26 then char_of (65 + n)
      else if n < 52 then char_of (71 + n)
      else if n < 62 then char_of (n - 4)
      else if n = 62 then CHR ''+'' else CHR ''/'')"

definition b64_val :: "char \<Rightarrow> nat option" where
  "b64_val c =
     (let n = (of_char c :: nat) in
      if 65 \<le> n \<and> n \<le> 90 then Some (n - 65)
      else if 97 \<le> n \<and> n \<le> 122 then Some (n - 71)
      else if 48 \<le> n \<and> n \<le> 57 then Some (n + 4)
      else if c = CHR ''+'' \<or> c = CHR ''-'' then Some 62
      else if c = CHR ''/'' \<or> c = CHR ''_'' then Some 63
      else None)"

fun b64_encode :: "nat list \<Rightarrow> string" where
  "b64_encode [] = []"
| "b64_encode [a] = [b64_char (a div 4), b64_char ((a mod 4) * 16), CHR ''='', CHR ''='']"
| "b64_encode [a, b] =
     [b64_char (a div 4), b64_char ((a mod 4) * 16 + b div 16), b64_char ((b mod 16) * 4),
      CHR ''='']"
| "b64_encode (a # b # c # bs) =
     [b64_char (a div 4), b64_char ((a mod 4) * 16 + b div 16),
      b64_char ((b mod 16) * 4 + c div 64), b64_char (c mod 64)] @ b64_encode bs"

fun from_sextets :: "nat list \<Rightarrow> nat list" where
  "from_sextets (a # b # c # d # r) =
     [a * 4 + b div 16, (b mod 16) * 16 + c div 4, (c mod 4) * 64 + d] @ from_sextets r"
| "from_sextets [a, b, c] = [a * 4 + b div 16, (b mod 16) * 16 + c div 4]"
| "from_sextets [a, b] = [a * 4 + b div 16]"
| "from_sextets r = []"

definition sextets :: "string \<Rightarrow> nat list" where
  \<comment> \<open>the values of the legal characters before the first \<^verbatim>\<open>=\<close>\<close>
  "sextets s = List.map_filter b64_val (takeWhile (\<lambda>c. c \<noteq> CHR ''='') s)"

definition b64_decode :: "string \<Rightarrow> nat list" where
  "b64_decode s = from_sextets (sextets s)"

definition hex_char :: "nat \<Rightarrow> char" where
  "hex_char d = (if d < 10 then char_of (48 + d) else char_of (87 + d))"

definition hex_val :: "char \<Rightarrow> nat option" where
  "hex_val c =
     (let n = (of_char c :: nat) in
      if 48 \<le> n \<and> n \<le> 57 then Some (n - 48)
      else if 97 \<le> n \<and> n \<le> 102 then Some (n - 87)
      else if 65 \<le> n \<and> n \<le> 70 then Some (n - 55)
      else None)"

definition json_escape :: "char \<Rightarrow> string" where
  "json_escape c =
     (let n = (of_char c :: nat) in
      if n = 34 then [CHR 0x5C, CHR 0x22]
      else if n = 92 then [CHR 0x5C, CHR 0x5C]
      else if n = 8 then [CHR 0x5C, CHR ''b'']
      else if n = 12 then [CHR 0x5C, CHR ''f'']
      else if n = 10 then [CHR 0x5C, CHR ''n'']
      else if n = 13 then [CHR 0x5C, CHR ''r'']
      else if n = 9 then [CHR 0x5C, CHR ''t'']
      else if n < 32 then
        [CHR 0x5C, CHR ''u'', CHR ''0'', CHR ''0'', hex_char (n div 16), hex_char (n mod 16)]
      else [c])"

definition json_quote :: "string \<Rightarrow> string" where
  "json_quote s = CHR 0x22 # concat (map json_escape s) @ [CHR 0x22]"

definition show_int :: "int \<Rightarrow> string" where
  "show_int n = (if n < 0 then CHR ''-'' # digits_of (nat (- n)) else digits_of (nat n))"

fun decimal_places :: "nat \<Rightarrow> rat \<Rightarrow> nat option" where
  \<comment> \<open>the number of digits after the point, searched up to a bound\<close>
  "decimal_places 0 q = None"
| "decimal_places (Suc k) q =
     (if q = of_int \<lfloor>q\<rfloor> then Some 0 else map_option Suc (decimal_places k (q * 10)))"

definition show_fraction :: "rat \<Rightarrow> nat \<Rightarrow> string" where
  \<comment> \<open>the \<open>k\<close> digits after the point of a number between 0 and 1\<close>
  "show_fraction q k =
     (let ds = digits_of (nat \<lfloor>q * 10 ^ k\<rfloor>) in replicate (k - length ds) CHR ''0'' @ ds)"

definition show_num :: "rat \<Rightarrow> string" where
  \<comment> \<open>an integer by its digits and a number with finitely many decimal places in positional
      notation, as Node prints them between \<^verbatim>\<open>1e-6\<close> and \<^verbatim>\<open>1e21\<close>; a number without a finite
      decimal expansion, which no JavaScript number is, by numerator and denominator\<close>
  "show_num q =
     (if q = of_int \<lfloor>q\<rfloor> then show_int \<lfloor>q\<rfloor>
      else (case decimal_places (nat (snd (quotient_of q))) \<bar>q\<bar> of
              Some k \<Rightarrow>
                (if q < 0 then ''-'' else []) @ digits_of (nat \<lfloor>\<bar>q\<bar>\<rfloor>) @ ''.''
                  @ show_fraction (\<bar>q\<bar> - of_int \<lfloor>\<bar>q\<bar>\<rfloor>) k
            | None \<Rightarrow> show_int (fst (quotient_of q)) @ ''/'' @ show_int (snd (quotient_of q))))"

fun json_value :: "rat jsval \<Rightarrow> string option" where
  "json_value JUndefined = None"
| "json_value JNull = Some ''null''"
| "json_value (JBool b) = Some (if b then ''true'' else ''false'')"
| "json_value (JNum n) = Some (show_num n)"
| "json_value (JStr s) = Some (json_quote s)"
| "json_value (JArr xs) =
     Some (''['' @ join '','' (map (\<lambda>x. case json_value x of None \<Rightarrow> ''null'' | Some t \<Rightarrow> t) xs) @ '']'')"
| "json_value (JObj kvs) =
     Some (''{'' @ join '',''
        (concat (map (\<lambda>kv. case json_value (snd kv) of None \<Rightarrow> []
                                | Some t \<Rightarrow> [json_quote (fst kv) @ '':'' @ t]) kvs))
        @ ''}'')"
| "json_value (JFun name) = None"
| "json_value JProto = Some ''{}''"

definition json_stringify :: "rat jsval \<Rightarrow> string" where
  \<comment> \<open>applied to objects only; for \<^verbatim>\<open>undefined\<close>, where \<^verbatim>\<open>JSON.stringify\<close> returns no string,
      the empty string\<close>
  "json_stringify v = (case json_value v of None \<Rightarrow> [] | Some t \<Rightarrow> t)"

definition is_json_ws :: "char \<Rightarrow> bool" where
  "is_json_ws c = (of_char c \<in> {9, 10, 13, 32 :: nat})"

definition skip_ws :: "string \<Rightarrow> string" where
  "skip_ws s = dropWhile is_json_ws s"

definition is_digit :: "char \<Rightarrow> bool" where
  "is_digit c = (48 \<le> (of_char c :: nat) \<and> (of_char c :: nat) \<le> 57)"

definition digit_val :: "char \<Rightarrow> nat" where
  "digit_val c = of_char c - 48"

definition hex4 :: "char \<Rightarrow> char \<Rightarrow> char \<Rightarrow> char \<Rightarrow> nat option" where
  "hex4 a b c d =
     (case (hex_val a, hex_val b, hex_val c, hex_val d) of
        (Some x, Some y, Some z, Some w) \<Rightarrow> Some (((x * 16 + y) * 16 + z) * 16 + w)
      | _ \<Rightarrow> None)"

definition unescape :: "char \<Rightarrow> char option" where
  "unescape e =
     (if e = CHR 0x22 \<or> e = CHR 0x5C \<or> e = CHR ''/'' then Some e
      else if e = CHR ''b'' then Some (CHR 0x08)
      else if e = CHR ''f'' then Some (CHR 0x0C)
      else if e = CHR ''n'' then Some (CHR 0x0A)
      else if e = CHR ''r'' then Some (CHR 0x0D)
      else if e = CHR ''t'' then Some (CHR 0x09)
      else None)"

fun parse_string_body :: "string \<Rightarrow> (string \<times> string) option" where
  "parse_string_body [] = None"
| "parse_string_body [c] = (if c = CHR 0x22 then Some ([], []) else None)"
| "parse_string_body (c # e # rest) =
     (if c = CHR 0x22 then Some ([], e # rest)
      else if c = CHR 0x5C then
        (if e = CHR ''u'' then
           (case rest of
              h1 # h2 # h3 # h4 # rest' \<Rightarrow>
                (case hex4 h1 h2 h3 h4 of
                   None \<Rightarrow> None
                 | Some n \<Rightarrow>
                     map_option (\<lambda>(t, r). ((if n < 256 then char_of n else CHR ''?'') # t, r))
                       (parse_string_body rest'))
            | _ \<Rightarrow> None)
         else
           (case unescape e of
              None \<Rightarrow> None
            | Some x \<Rightarrow> map_option (\<lambda>(t, r). (x # t, r)) (parse_string_body rest)))
      else if (of_char c :: nat) < 32 then None
      else map_option (\<lambda>(t, r). (c # t, r)) (parse_string_body (e # rest)))"

fun parse_nat :: "string \<Rightarrow> (nat \<times> string) option" where
  "parse_nat [] = None"
| "parse_nat (c # cs) =
     (if c = CHR ''0'' then Some (0, cs)
      else if is_digit c then
        Some (foldl (\<lambda>acc d. 10 * acc + digit_val d) 0 (c # takeWhile is_digit cs),
              dropWhile is_digit cs)
      else None)"

definition digits_value :: "string \<Rightarrow> nat" where
  "digits_value ds = foldl (\<lambda>acc d. 10 * acc + digit_val d) 0 ds"

definition parse_fraction :: "string \<Rightarrow> (rat \<times> string) option" where
  \<comment> \<open>the optional fraction of a numeral: its value, and the rest of the text\<close>
  "parse_fraction r =
     (if startsWith r ''.'' then
        (let ds = takeWhile is_digit (drop 1 r) in
         if ds = [] then None
         else Some (of_nat (digits_value ds) / 10 ^ length ds, dropWhile is_digit (drop 1 r)))
      else Some (0, r))"

definition parse_exponent :: "string \<Rightarrow> (rat \<times> string) option" where
  \<comment> \<open>the optional exponent of a numeral: the power of ten, and the rest of the text\<close>
  "parse_exponent r =
     (if startsWith r ''e'' \<or> startsWith r ''E'' then
        (let r1 = drop 1 r;
             r2 = (if startsWith r1 ''-'' \<or> startsWith r1 ''+'' then drop 1 r1 else r1);
             ds = takeWhile is_digit r2
         in if ds = [] then None
            else Some (if startsWith r1 ''-'' then 1 / 10 ^ digits_value ds
                       else 10 ^ digits_value ds,
                       dropWhile is_digit r2))
      else Some (1, r))"

definition parse_number :: "string \<Rightarrow> (rat \<times> string) option" where
  \<comment> \<open>a JSON numeral: sign, integer part, fraction, exponent; the value is exact\<close>
  "parse_number s =
     (case parse_nat (if startsWith s ''-'' then drop 1 s else s) of
        None \<Rightarrow> None
      | Some (n, r1) \<Rightarrow>
          (case parse_fraction r1 of
             None \<Rightarrow> None
           | Some (fr, r2) \<Rightarrow>
               (case parse_exponent r2 of
                  None \<Rightarrow> None
                | Some (p, r3) \<Rightarrow>
                    Some ((if startsWith s ''-'' then - (of_nat n + fr) else of_nat n + fr) * p,
                          r3))))"

fun parse_value :: "nat \<Rightarrow> string \<Rightarrow> (rat jsval \<times> string) option"
and parse_elems :: "nat \<Rightarrow> string \<Rightarrow> (rat jsval list \<times> string) option"
and parse_members :: "nat \<Rightarrow> string \<Rightarrow> (rat obj \<times> string) option" where
  "parse_value 0 s = None"
| "parse_value (Suc k) s =
     (let t = skip_ws s in
      if startsWith t ''null'' then Some (JNull, drop 4 t)
      else if startsWith t ''true'' then Some (JBool True, drop 4 t)
      else if startsWith t ''false'' then Some (JBool False, drop 5 t)
      else if startsWith t [CHR 0x22] then
        map_option (\<lambda>(x, r). (JStr x, r)) (parse_string_body (drop 1 t))
      else if startsWith t ''['' then
        (if startsWith (skip_ws (drop 1 t)) '']'' then Some (JArr [], drop 1 (skip_ws (drop 1 t)))
         else map_option (\<lambda>(xs, r). (JArr xs, r)) (parse_elems k (drop 1 t)))
      else if startsWith t ''{'' then
        (if startsWith (skip_ws (drop 1 t)) ''}'' then Some (JObj [], drop 1 (skip_ws (drop 1 t)))
         else map_option (\<lambda>(kvs, r). (JObj (foldl (\<lambda>ob (k, v). set_prop ob k v) [] kvs), r))
                (parse_members k (drop 1 t)))
      else map_option (\<lambda>(n, r). (JNum n, r)) (parse_number t))"
| "parse_elems 0 s = None"
| "parse_elems (Suc k) s =
     (case parse_value k s of
        None \<Rightarrow> None
      | Some (v, r) \<Rightarrow>
          (let t = skip_ws r in
           if startsWith t '','' then
             map_option (\<lambda>(vs, r'). (v # vs, r')) (parse_elems k (drop 1 t))
           else if startsWith t '']'' then Some ([v], drop 1 t)
           else None))"
| "parse_members 0 s = None"
| "parse_members (Suc k) s =
     (let t = skip_ws s in
      if startsWith t [CHR 0x22] then
        (case parse_string_body (drop 1 t) of
           None \<Rightarrow> None
         | Some (key, r1) \<Rightarrow>
             (let t1 = skip_ws r1 in
              if startsWith t1 '':'' then
                (case parse_value k (drop 1 t1) of
                   None \<Rightarrow> None
                 | Some (v, r2) \<Rightarrow>
                     (let t2 = skip_ws r2 in
                      if startsWith t2 '','' then
                        map_option (\<lambda>(kvs, r'). ((key, v) # kvs, r')) (parse_members k (drop 1 t2))
                      else if startsWith t2 ''}'' then Some ([(key, v)], drop 1 t2)
                      else None))
              else None))
      else None)"

definition json_parse :: "string \<Rightarrow> rat jsval option" where
  "json_parse s =
     (case parse_value (2 * length s + 2) s of
        None \<Rightarrow> None
      | Some (v, r) \<Rightarrow> if skip_ws r = [] then Some v else None)"

definition node_rt :: "rat runtime" where
  "node_rt = \<lparr>JSON_parse = json_parse,
             JSON_stringify = json_stringify,
             base64_to_utf8 = (\<lambda>s. utf8_decode (b64_decode s)),
             utf8_to_base64 = (\<lambda>s. b64_encode (utf8_encode s)),
             Number_toString = show_num,
             MAX_VALUE = 2 ^ 1024 - 2 ^ 971,
             MIN_VALUE = 1 / 2 ^ 1074\<rparr>"

definition decimal :: "rat \<Rightarrow> bool" where
  \<comment> \<open>the numbers with finitely many decimal places, the integers among them\<close>
  "decimal q = (decimal_places (nat (snd (quotient_of q))) \<bar>q\<bar> \<noteq> None)"

section \<open>A port instance\<close>

text \<open>
  A port that answers from a script, one entry per invocation, whatever the statement;
  once the script is used up it throws.
\<close>

definition scripted_port :: "((string + 'n query_result) list, 'n) port" where
  "scripted_port script sqlQuery params =
     (case script of [] \<Rightarrow> (Inl ''connection closed'', []) | r # rest \<Rightarrow> (r, rest))"

definition row_batch :: "string \<Rightarrow> 'n list \<Rightarrow> string + 'n query_result" where
  \<comment> \<open>a result whose rows have the one column \<open>col\<close>\<close>
  "row_batch col xs = Inr \<lparr>recordset = Some (map (\<lambda>x. [(col, JNum x)]) xs)\<rparr>"

section \<open>The invariant of the batch loop\<close>

text \<open>
  The state of the streamer after it has fetched the batches \<open>bs\<close> (in order): the counters
  and the accumulators are functions of the rows fetched so far, every batch but the last was
  full, and before the last fetch the number of processed rows was below \<open>maxRows\<close>.
\<close>

definition run_inv ::
  "'n::{zero,one,plus,ord} runtime \<Rightarrow> 'n stream_args \<Rightarrow> 'n stream_state \<Rightarrow> 'n obj list list \<Rightarrow> bool" where
  "run_inv rt args s bs \<longleftrightarrow>
     totalProcessedRows s = length (concat bs)
     \<and> batchCount s = length bs
     \<and> aggregationResults s =
         (case sa_aggregations args of
            None \<Rightarrow> Map.empty
          | Some aggs \<Rightarrow>
              aggregate_rows aggs (foldl (init_aggregation rt) Map.empty aggs) (concat bs))
     \<and> (bs \<noteq> [] \<longrightarrow> length (concat (butlast bs)) < sa_maxRows args)
     \<and> (\<forall>b \<in> set (butlast bs). sa_batchSize args \<le> length b)
     \<and> (if bs = [] then hasMore s
         else hasMore s = (sa_batchSize args \<le> length (last bs)
                            \<and> length (concat bs) < sa_maxRows args))"

section \<open>Example runs\<close>

text \<open>
  Projections of the outcome of a run, and a table of five sales served by the scripted port
  in batches of two and in one batch of five.
\<close>

definition run_total :: "('n stream_summary response \<times> ('w, 'n) world) option \<Rightarrow> nat option" where
  "run_total r = (case r of Some (Success sm, w') \<Rightarrow> Some (totalRows sm) | _ \<Rightarrow> None)"

definition run_slot ::
  "string \<Rightarrow> ('n stream_summary response \<times> ('w, 'n) world) option \<Rightarrow> 'n acc option" where
  "run_slot key r = (case r of Some (Success sm, w') \<Rightarrow> sm_aggregations sm key | _ \<Rightarrow> None)"

definition run_world ::
  "('n stream_summary response \<times> ('w, 'n) world) option \<Rightarrow> ('w, 'n) world option" where
  "run_world r = (case r of Some (Success sm, w') \<Rightarrow> Some w' | _ \<Rightarrow> None)"

definition amounts :: "(rat \<times> rat) list \<Rightarrow> string + rat query_result" where
  "amounts xs = Inr \<lparr>recordset = Some (map (\<lambda>(i, a). [(''id'', JNum i), (''amount'', JNum a)]) xs)\<rparr>"

definition example_args :: "nat \<Rightarrow> rat stream_args" where
  "example_args n =
     \<lparr>sa_sql = ''SELECT id, amount FROM sales'', sa_batchSize = n, sa_maxRows = 100,
      sa_parameters = [], sa_cursorField = None, sa_outputType = Summary,
      sa_aggregations = Some [(''amount'', Sum), (''amount'', Avg)]\<rparr>"

definition example_world_2 :: "((string + rat query_result) list, rat) world" where
  "example_world_2 =
     \<lparr>port_state = [amounts [(1, 10), (2, 20)], amounts [(3, 30), (4, 40)], amounts [(5, 5)]],
      trace = []\<rparr>"

definition example_world_5 :: "((string + rat query_result) list, rat) world" where
  "example_world_5 =
     \<lparr>port_state = [amounts [(1, 10), (2, 20), (3, 30), (4, 40), (5, 5)], amounts []],
      trace = []\<rparr>"

definition example_trace_2 :: "(string \<times> rat obj \<times> (string + rat query_result)) list" where
  "example_trace_2 =
     [(''SELECT id, amount FROM sales ORDER BY id ASC OFFSET 0 ROWS FETCH NEXT 2 ROWS ONLY'',
       [], amounts [(1, 10), (2, 20)]),
      (''SELECT id, amount FROM sales ORDER BY id ASC WHERE [id] > @cursor_id OFFSET 0 ROWS FETCH NEXT 2 ROWS ONLY'',
       [(''cursor_id'', JNum 2)], amounts [(3, 30), (4, 40)]),
      (''SELECT id, amount FROM sales ORDER BY id ASC WHERE [id] > @cursor_id OFFSET 0 ROWS FETCH NEXT 2 ROWS ONLY'',
       [(''cursor_id'', JNum 4)], amounts [(5, 5)])]"


section \<open>Properties of \<^verbatim>\<open>paginateQuery\<close>\<close>

lemma split_chr_nonempty: "split_chr sep s \<noteq> []"
  by (induction s) (auto split: list.splits)

lemma rx_split_from_nonempty: "rx_split_from r s p q \<noteq> []"
proof (induction r s p q rule: rx_split_from.induct)
  case (1 r s p q)
  show ?case
    by (subst rx_split_from.simps) (use 1 in \<open>auto split: list.splits\<close>)
qed

lemma rx_m_Plus_empty: "rx_m (Plus p) [] 0 c = []"
  by (simp add: run_len_def)

lemma rx_split_spaces_nonempty: "rx_split (Plus is_space) s \<noteq> []"
  by (cases "s = []") (simp_all add: rx_split_def rx_split_from_nonempty run_len_def)

lemma first_order_field_total: "\<exists>f. first_order_field x = Inr f"
proof -
  obtain a as where a: "split_chr CHR '','' x = a # as"
    using split_chr_nonempty by (cases "split_chr CHR '','' x") auto
  obtain b bs where b: "rx_split (Plus is_space) (trim a) = b # bs"
    using rx_split_spaces_nonempty by (cases "rx_split (Plus is_space) (trim a)") auto
  show ?thesis
    by (simp add: first_order_field_def elem0_def a b)
qed

lemma resolve_order_total: "\<exists>q f. resolve_order s cf d = Inr (q, f)"
proof -
  have "\<And>m e. first_order_field m \<noteq> Inl e"
    using first_order_field_total by (metis sum.distinct(1))
  then show ?thesis
    unfolding resolve_order_def
    by (auto split: option.splits sum.splits simp: Let_def)
qed

lemma resolve_order_no_order:
  assumes "\<not> rx_test rx_has_order_by s" "f \<noteq> []"
  shows "resolve_order s (Some f) d = Inr (s @ '' ORDER BY '' @ f @ '' ASC'', Some f)"
  using assms by (simp add: resolve_order_def str_truthy_def)

lemma apply_cursor_length: "length (snd (apply_cursor rt st up q f c)) = length st"
  by (auto simp: apply_cursor_def try_cursor_def Let_def
           split: option.splits sum.splits prod.splits jsval.splits if_splits)

lemma apply_cursor_frame:
  "b \<noteq> up \<Longrightarrow> snd (apply_cursor rt st up q f c) ! b = st ! b"
  by (auto simp: apply_cursor_def try_cursor_def Let_def
           split: option.splits sum.splits prod.splits jsval.splits if_splits)

lemma apply_cursor_None: "apply_cursor rt st up q f None = (q, st)"
  by (simp add: apply_cursor_def str_truthy_def)

lemma try_cursor_invalid:
  assumes "\<not> has_field_and_value (decodeCursor rt (Some c))" "c \<noteq> []"
  shows "\<exists>e. try_cursor rt st up q f c = Inl e"
  using assms
  by (auto simp: has_field_and_value_def decodeCursor_def str_truthy_def try_cursor_def
                 destructure_cursor_def
           split: option.splits jsval.splits)

lemma apply_cursor_invalid:
  assumes "\<not> has_field_and_value (decodeCursor rt c)"
  shows "apply_cursor rt st up q f c = (q, st)"
proof (cases "str_truthy c")
  case False
  then show ?thesis by (simp add: apply_cursor_def)
next
  case True
  then obtain x where x: "c = Some x" "x \<noteq> []"
    by (auto simp: str_truthy_def split: option.splits)
  with assms obtain e where "try_cursor rt st up q f x = Inl e"
    using try_cursor_invalid by blast
  with x show ?thesis by (simp add: apply_cursor_def str_truthy_def)
qed

lemma paginateQuery_unfold:
  "paginateQuery rt st sql options =
     (case resolve_order (trim sql) (opt_cursorField options)
             (case opt_defaultCursorField options of None \<Rightarrow> ''id'' | Some d \<Rightarrow> d) of
        Inl e \<Rightarrow> Inl e
      | Inr (orderedSql, actualCursorField) \<Rightarrow>
          (let st0 = (case opt_parameters options of None \<Rightarrow> st @ [[]] | Some a \<Rightarrow> st);
               ps = (case opt_parameters options of None \<Rightarrow> length st | Some a \<Rightarrow> a);
               st1 = st0 @ [deref st0 ps];
               cs = apply_cursor rt st1 (length st0) orderedSql actualCursorField
                      (opt_cursor options)
           in Inr (snd cs,
                   \<lparr>r_paginatedSql = apply_row_bound (fst cs)
                        (case opt_pageSize options of None \<Rightarrow> 100 | Some n \<Rightarrow> n),
                    r_parameters = length st0,
                    r_cursorField = actualCursorField\<rparr>)))"
  by (auto simp: paginateQuery_def alloc_def Let_def split: option.splits sum.splits prod.splits)

lemma startsWith_append_stop:
  "y \<notin> set w \<Longrightarrow> startsWith (zs @ y # ys) w \<Longrightarrow> startsWith zs w"
proof (induction zs arbitrary: w)
  case Nil
  then show ?case by (cases w) auto
next
  case (Cons z zs)
  then show ?case by (cases w) auto
qed

lemma str_includes_Cons: "str_includes xs w \<Longrightarrow> str_includes (x # xs) w"
  by simp

lemma str_includes_append_stop:
  assumes "y \<notin> set w" and "\<not> str_includes (y # ys) w"
  shows "str_includes (xs @ y # ys) w \<Longrightarrow> str_includes xs w"
proof (induction xs)
  case Nil
  with assms show ?case by simp
next
  case (Cons x xs)
  from Cons.prems have "startsWith ((x # xs) @ y # ys) w \<or> str_includes (xs @ y # ys) w"
    by simp
  then show ?case
  proof
    assume "startsWith ((x # xs) @ y # ys) w"
    then have "startsWith (x # xs) w" using assms(1) by (rule startsWith_append_stop[rotated])
    then show ?thesis by simp
  next
    assume "str_includes (xs @ y # ys) w"
    then have "str_includes xs w" by (rule Cons.IH)
    then show ?thesis by simp
  qed
qed

lemma lower_order_suffix: "toLowerCase '' ORDER BY id ASC'' = '' order by id asc''"
  by code_simp

lemma no_limit_in_order_suffix:
  assumes "\<not> str_includes (toLowerCase s) w" and "w = ''offset'' \<or> w = ''fetch''"
  shows "\<not> str_includes (toLowerCase (s @ '' ORDER BY id ASC'')) w"
proof
  assume a: "str_includes (toLowerCase (s @ '' ORDER BY id ASC'')) w"
  have eq: "toLowerCase (s @ '' ORDER BY id ASC'') = toLowerCase s @ CHR '' '' # ''order by id asc''"
    using lower_order_suffix by (simp add: toLowerCase_def)
  have n1: "CHR '' '' \<notin> set w" using assms(2) by auto
  have n2: "\<not> str_includes (CHR '' '' # ''order by id asc'') w" using assms(2) by auto
  from a have "str_includes (toLowerCase s) w"
    unfolding eq by (rule str_includes_append_stop [OF n1 n2])
  with assms(1) show False by simp
qed

text \<open>
  Claim C4, what the code does. For a statement in which \<^verbatim>\<open>paginateQuery\<close> finds no
  \<^verbatim>\<open>ORDER BY\<close>, called
  with \<^verbatim>\<open>cursorField = "id"\<close> and page size \<open>n\<close>, the rewritten statement is the trimmed
  input followed by \<^verbatim>\<open>ORDER BY id ASC\<close> and by the cursor predicate \<open>cp\<close>, if any. The row
  bound \<^verbatim>\<open>OFFSET 0 ROWS FETCH NEXT n ROWS ONLY\<close> is appended when that text contains neither
  \<^verbatim>\<open>offset\<close> nor \<^verbatim>\<open>fetch\<close> in any letter case, and is left out when it contains one of them
  anywhere, also inside a name. Without a cursor, and with neither word in the input, the
  result is the input with both clauses, as the claim demands.
\<close>

theorem paginateQuery_adds_order_and_bound:
  assumes "\<not> rx_test rx_has_order_by (trim sql)"
  shows "\<exists>st' r cp.
           paginateQuery rt st sql
             \<lparr>opt_cursorField = Some ''id'', opt_pageSize = Some n, opt_cursor = c,
              opt_parameters = p, opt_defaultCursorField = d\<rparr> = Inr (st', r)
           \<and> (c = None \<longrightarrow> cp = [])
           \<and> (let base = trim sql @ '' ORDER BY id ASC'' @ cp in
                r_paginatedSql r =
                  (if str_includes (toLowerCase base) ''offset''
                      \<or> str_includes (toLowerCase base) ''fetch''
                   then base
                   else base @ '' OFFSET 0 ROWS FETCH NEXT '' @ digits_of n @ '' ROWS ONLY''))
           \<and> (c = None \<and> \<not> str_includes (toLowerCase (trim sql)) ''offset''
                \<and> \<not> str_includes (toLowerCase (trim sql)) ''fetch''
               \<longrightarrow> r_paginatedSql r =
                     trim sql @ '' ORDER BY id ASC OFFSET 0 ROWS FETCH NEXT '' @ digits_of n
                       @ '' ROWS ONLY'')"
proof -
  let ?o = "trim sql @ '' ORDER BY id ASC''"
  have r: "resolve_order (trim sql) (Some ''id'') (case d of None \<Rightarrow> ''id'' | Some x \<Rightarrow> x)
             = Inr (?o, Some ''id'')"
    using assms by (simp add: resolve_order_def str_truthy_def)
  let ?st0 = "case p of None \<Rightarrow> st @ [[]] | Some a \<Rightarrow> st"
  let ?ps = "case p of None \<Rightarrow> length st | Some a \<Rightarrow> a"
  let ?cs = "apply_cursor rt (?st0 @ [deref ?st0 ?ps]) (length ?st0) ?o (Some ''id'') c"
  have pre: "\<exists>cp. fst ?cs = ?o @ cp \<and> (c = None \<longrightarrow> cp = [])"
    by (auto simp: apply_cursor_def try_cursor_def Let_def str_truthy_def
             split: option.splits sum.splits prod.splits jsval.splits if_splits)
  then obtain cp where cp: "fst ?cs = ?o @ cp" "c = None \<longrightarrow> cp = []" by blast
  have clean: "c = None \<and> \<not> str_includes (toLowerCase (trim sql)) ''offset''
                \<and> \<not> str_includes (toLowerCase (trim sql)) ''fetch''
               \<longrightarrow> apply_row_bound (fst ?cs) n =
                     trim sql @ '' ORDER BY id ASC OFFSET 0 ROWS FETCH NEXT '' @ digits_of n
                       @ '' ROWS ONLY''"
    using cp no_limit_in_order_suffix [of "trim sql" "''offset''"]
          no_limit_in_order_suffix [of "trim sql" "''fetch''"]
    by (auto simp: apply_row_bound_def)
  define r0 where "r0 = \<lparr>r_paginatedSql = apply_row_bound (fst ?cs) n,
                            r_parameters = length ?st0, r_cursorField = Some ''id''\<rparr>"
  have run: "paginateQuery rt st sql
             \<lparr>opt_cursorField = Some ''id'', opt_pageSize = Some n, opt_cursor = c,
              opt_parameters = p, opt_defaultCursorField = d\<rparr> = Inr (snd ?cs, r0)"
    using r by (simp add: paginateQuery_unfold Let_def r0_def)
  have sql: "r_paginatedSql r0 = apply_row_bound (?o @ cp) n"
    using cp(1) by (simp add: r0_def)
  have shape: "(let base = trim sql @ '' ORDER BY id ASC'' @ cp in
                r_paginatedSql r0 =
                  (if str_includes (toLowerCase base) ''offset''
                      \<or> str_includes (toLowerCase base) ''fetch''
                   then base
                   else base @ '' OFFSET 0 ROWS FETCH NEXT '' @ digits_of n @ '' ROWS ONLY''))"
    unfolding sql Let_def apply_row_bound_def by simp
  have clean': "c = None \<and> \<not> str_includes (toLowerCase (trim sql)) ''offset''
                \<and> \<not> str_includes (toLowerCase (trim sql)) ''fetch''
               \<longrightarrow> r_paginatedSql r0 =
                     trim sql @ '' ORDER BY id ASC OFFSET 0 ROWS FETCH NEXT '' @ digits_of n
                       @ '' ROWS ONLY''"
    using clean by (simp add: r0_def)
  from run cp(2) shape clean' show ?thesis by blast
qed

theorem paginateQuery_adds_order_and_bound_witness:
  "\<not> rx_test rx_has_order_by (trim ''SELECT * FROM t'')
   \<and> (\<exists>st' r. paginateQuery node_rt [[]] ''SELECT * FROM t''
             \<lparr>opt_cursorField = Some ''id'', opt_pageSize = Some 25, opt_cursor = None,
              opt_parameters = Some 0, opt_defaultCursorField = None\<rparr> = Inr (st', r)
         \<and> r_paginatedSql r = ''SELECT * FROM t ORDER BY id ASC OFFSET 0 ROWS FETCH NEXT 25 ROWS ONLY'')"
proof -
  have h: "\<not> rx_test rx_has_order_by (trim ''SELECT * FROM t'')"
    by code_simp
  have t: "trim ''SELECT * FROM t'' = ''SELECT * FROM t''" by code_simp
  have c1: "\<not> str_includes (toLowerCase ''SELECT * FROM t'') ''offset''" by code_simp
  have c2: "\<not> str_includes (toLowerCase ''SELECT * FROM t'') ''fetch''" by code_simp
  have d: "digits_of 25 = ''25''" by code_simp
  from paginateQuery_adds_order_and_bound [OF h, of node_rt "[[]]" 25 None "Some 0" None]
  show ?thesis using h t c1 c2 d by auto
qed

text \<open>
  Claim C4, the failing input: a statement without \<^verbatim>\<open>ORDER BY\<close> and without a row bound
  that reads from a table named \<^verbatim>\<open>prefetch\<close> gets the ordering clause and no row bound. The
  comment above the test, \<^verbatim>\<open>Add OFFSET/FETCH for SQL Server pagination syntax if not already
  present\<close>, says that such a statement is bounded: the substring test takes the table name
  for a clause.
\<close>

theorem paginateQuery_row_bound_counterexample:
  "\<not> rx_test rx_has_order_by (trim ''SELECT * FROM prefetch'')
   \<and> paginateQuery node_rt [[]] ''SELECT * FROM prefetch''
        \<lparr>opt_cursorField = Some ''id'', opt_pageSize = Some 10, opt_cursor = None,
         opt_parameters = Some 0, opt_defaultCursorField = None\<rparr>
     = Inr ([[], []],
            \<lparr>r_paginatedSql = ''SELECT * FROM prefetch ORDER BY id ASC'',
             r_parameters = 1, r_cursorField = Some ''id''\<rparr>)"
  by code_simp

text \<open>
  C5. A cursor token that does not decode to an object with a truthy \<^verbatim>\<open>field\<close> and a defined
  \<^verbatim>\<open>value\<close> (because base64 or JSON decoding fails, or a component is missing) makes
  \<^verbatim>\<open>paginateQuery\<close> return what it returns without a cursor: the call does not fail, the
  statement gets no cursor predicate, and the returned parameters are a copy of the
  caller's with nothing added.
\<close>

theorem paginateQuery_undecodable_cursor:
  assumes "\<not> has_field_and_value (decodeCursor rt c)"
  shows "paginateQuery rt st sql (options\<lparr>opt_cursor := c\<rparr>)
           = paginateQuery rt st sql (options\<lparr>opt_cursor := None\<rparr>)
         \<and> (\<exists>st' r. paginateQuery rt st sql (options\<lparr>opt_cursor := c\<rparr>) = Inr (st', r)
               \<and> deref st' (r_parameters r)
                   = (case opt_parameters options of None \<Rightarrow> [] | Some a \<Rightarrow> deref st a))"
proof -
  obtain q f where r: "resolve_order (trim sql) (opt_cursorField options)
             (case opt_defaultCursorField options of None \<Rightarrow> ''id'' | Some d \<Rightarrow> d) = Inr (q, f)"
    using resolve_order_total by blast
  show ?thesis
    using assms r
    by (simp add: paginateQuery_unfold apply_cursor_invalid apply_cursor_None Let_def deref_def
                  nth_append
             split: option.splits)
qed

theorem paginateQuery_undecodable_cursor_witness:
  "\<not> has_field_and_value (decodeCursor node_rt (Some ''%%%''))
   \<and> paginateQuery node_rt [[(''a'', JNum 1)]] ''SELECT * FROM t''
        \<lparr>opt_cursorField = Some ''id'', opt_pageSize = Some 2, opt_cursor = Some ''%%%'',
         opt_parameters = Some 0, opt_defaultCursorField = None\<rparr>
     = Inr ([[(''a'', JNum 1)], [(''a'', JNum 1)]],
            \<lparr>r_paginatedSql = ''SELECT * FROM t ORDER BY id ASC OFFSET 0 ROWS FETCH NEXT 2 ROWS ONLY'',
             r_parameters = 1, r_cursorField = Some ''id''\<rparr>)"
proof -
  have h: "\<not> has_field_and_value (decodeCursor node_rt (Some ''%%%''))"
    by code_simp
  have e: "paginateQuery node_rt [[(''a'', JNum 1)]] ''SELECT * FROM t''
        \<lparr>opt_cursorField = Some ''id'', opt_pageSize = Some 2, opt_cursor = None,
         opt_parameters = Some 0, opt_defaultCursorField = None\<rparr>
     = Inr ([[(''a'', JNum 1)], [(''a'', JNum 1)]],
            \<lparr>r_paginatedSql = ''SELECT * FROM t ORDER BY id ASC OFFSET 0 ROWS FETCH NEXT 2 ROWS ONLY'',
             r_parameters = 1, r_cursorField = Some ''id''\<rparr>)"
    by code_simp
  from paginateQuery_undecodable_cursor [OF h, of "[[(''a'', JNum 1)]]" "''SELECT * FROM t''"
      "\<lparr>opt_cursorField = Some ''id'', opt_pageSize = Some 2, opt_cursor = None,
         opt_parameters = Some 0, opt_defaultCursorField = None\<rparr>"]
  show ?thesis using h e by simp
qed

text \<open>
  C10. \<^verbatim>\<open>paginateQuery\<close> leaves every object of the store as it was, the caller's
  \<^verbatim>\<open>parameters\<close> among them. The parameters it returns are a new object at an address that
  was not allocated before, holding the caller's properties and at most one more, the
  cursor value.
\<close>

theorem paginateQuery_fresh_parameters:
  assumes "opt_parameters options = Some a" and "a < length st"
  shows "\<exists>st' r. paginateQuery rt st sql options = Inr (st', r)
           \<and> take (length st) st' = st
           \<and> deref st' a = deref st a
           \<and> r_parameters r = length st
           \<and> length st' = Suc (length st)
           \<and> (deref st' (r_parameters r) = deref st a
                \<or> (\<exists>k v. deref st' (r_parameters r) = set_prop (deref st a) k v))"
proof -
  obtain q f where r: "resolve_order (trim sql) (opt_cursorField options)
             (case opt_defaultCursorField options of None \<Rightarrow> ''id'' | Some d \<Rightarrow> d) = Inr (q, f)"
    using resolve_order_total by blast
  let ?st1 = "st @ [deref st a]"
  let ?cs = "apply_cursor rt ?st1 (length st) q f (opt_cursor options)"
  have len: "length (snd ?cs) = Suc (length st)"
    by (simp add: apply_cursor_length)
  have frame: "\<And>b. b < length st \<Longrightarrow> snd ?cs ! b = st ! b"
    by (simp add: apply_cursor_frame nth_append)
  have tk: "take (length st) (snd ?cs) = st"
    by (rule nth_equalityI) (simp_all add: len frame)
  have new: "snd ?cs ! length st = deref st a
              \<or> (\<exists>k v. snd ?cs ! length st = set_prop (deref st a) k v)"
    by (auto simp: apply_cursor_def try_cursor_def Let_def deref_def nth_append
             split: option.splits sum.splits prod.splits jsval.splits if_splits)
  show ?thesis
    using assms r len tk new frame [of a]
    by (simp add: paginateQuery_unfold Let_def deref_def)
qed

theorem paginateQuery_fresh_parameters_witness:
  "(0::nat) < length [[(''tenant'', JNum (7::rat))]]
   \<and> paginateQuery node_rt [[(''tenant'', JNum 7)]] ''SELECT * FROM t''
        \<lparr>opt_cursorField = Some ''id'', opt_pageSize = Some 2,
         opt_cursor = Some ''eyJmaWVsZCI6ImlkIiwidmFsdWUiOjIsIm9wZXJhdG9yIjoiPiJ9'',
         opt_parameters = Some 0, opt_defaultCursorField = None\<rparr>
     = Inr ([[(''tenant'', JNum 7)], [(''tenant'', JNum 7), (''cursor_id'', JNum 2)]],
            \<lparr>r_paginatedSql = ''SELECT * FROM t ORDER BY id ASC WHERE [id] > @cursor_id OFFSET 0 ROWS FETCH NEXT 2 ROWS ONLY'',
             r_parameters = 1, r_cursorField = Some ''id''\<rparr>)"
proof -
  have e: "paginateQuery node_rt [[(''tenant'', JNum 7)]] ''SELECT * FROM t''
        \<lparr>opt_cursorField = Some ''id'', opt_pageSize = Some 2,
         opt_cursor = Some ''eyJmaWVsZCI6ImlkIiwidmFsdWUiOjIsIm9wZXJhdG9yIjoiPiJ9'',
         opt_parameters = Some 0, opt_defaultCursorField = None\<rparr>
     = Inr ([[(''tenant'', JNum 7)], [(''tenant'', JNum 7), (''cursor_id'', JNum 2)]],
            \<lparr>r_paginatedSql = ''SELECT * FROM t ORDER BY id ASC WHERE [id] > @cursor_id OFFSET 0 ROWS FETCH NEXT 2 ROWS ONLY'',
             r_parameters = 1, r_cursorField = Some ''id''\<rparr>)"
    by code_simp
  from paginateQuery_fresh_parameters [of "\<lparr>opt_cursorField = Some ''id'', opt_pageSize = Some 2,
         opt_cursor = Some ''eyJmaWVsZCI6ImlkIiwidmFsdWUiOjIsIm9wZXJhdG9yIjoiPiJ9'',
         opt_parameters = Some 0, opt_defaultCursorField = None\<rparr>" 0
         "[[(''tenant'', JNum 7)]]" node_rt "''SELECT * FROM t''"]
  show ?thesis using e by simp
qed



section \<open>Properties of the tool handlers\<close>

lemma is_prohibited_iff:
  "is_prohibited sql \<longleftrightarrow>
     (\<exists>op \<in> {''drop '', ''delete '', ''truncate '', ''update '', ''alter ''}.
        str_includes (toLowerCase sql) op)"
  by (simp add: is_prohibited_def prohibitedOperations_def Let_def)

text \<open>
  Claim C3, what the code does. A statement whose lower-case form contains \<^verbatim>\<open>drop\<close>, \<^verbatim>\<open>delete\<close>,
  \<^verbatim>\<open>truncate\<close>, \<^verbatim>\<open>update\<close> or \<^verbatim>\<open>alter\<close> immediately followed by a space is refused by
  \<^verbatim>\<open>execute_query\<close>, \<^verbatim>\<open>paginated_query\<close> and \<^verbatim>\<open>query_streamer\<close> with the validation
  error, and the world is left as it was: the trace gains no invocation of the port.
\<close>

theorem write_statement_rejected:
  assumes "op \<in> {''drop '', ''delete '', ''truncate '', ''update '', ''alter ''}"
      and "str_includes (toLowerCase sql) op"
  shows "executeQueryTool port w \<lparr>ea_sql = sql, ea_parameters = ps\<rparr> = (ValidationError, w)
         \<and> paginatedQueryTool rt port w (pa\<lparr>pa_sql := sql\<rparr>) = (ValidationError, w)
         \<and> queryStreamerTool rt port w (sa\<lparr>sa_sql := sql\<rparr>) = Some (ValidationError, w)"
proof -
  have "is_prohibited sql"
    unfolding is_prohibited_iff using assms by blast
  then show ?thesis
    by (simp add: executeQueryTool_def paginatedQueryTool_def queryStreamerTool_def)
qed

theorem write_statement_rejected_witness:
  "''drop '' \<in> {''drop '', ''delete '', ''truncate '', ''update '', ''alter ''}
   \<and> str_includes (toLowerCase ''DROP TABLE users'') ''drop ''
   \<and> executeQueryTool scripted_port \<lparr>port_state = [row_batch ''id'' [1 :: rat]], trace = []\<rparr>
        \<lparr>ea_sql = ''DROP TABLE users'', ea_parameters = []\<rparr>
      = (ValidationError, \<lparr>port_state = [row_batch ''id'' [1]], trace = []\<rparr>)
   \<and> paginatedQueryTool node_rt scripted_port
        \<lparr>port_state = [row_batch ''id'' [1]], trace = []\<rparr>
        \<lparr>pa_sql = ''DROP TABLE users'', pa_cursorField = None, pa_pageSize = 50,
         pa_cursor = None, pa_parameters = [], pa_includeCount = True\<rparr>
      = (ValidationError, \<lparr>port_state = [row_batch ''id'' [1]], trace = []\<rparr>)
   \<and> queryStreamerTool node_rt scripted_port
        \<lparr>port_state = [row_batch ''id'' [1]], trace = []\<rparr>
        \<lparr>sa_sql = ''DROP TABLE users'', sa_batchSize = 1000, sa_maxRows = 100000,
         sa_parameters = [], sa_cursorField = None, sa_outputType = Summary,
         sa_aggregations = None\<rparr>
      = Some (ValidationError, \<lparr>port_state = [row_batch ''id'' [1]], trace = []\<rparr>)"
proof -
  have a: "''drop '' \<in> {''drop '', ''delete '', ''truncate '', ''update '', ''alter ''}"
    by simp
  have b: "str_includes (toLowerCase ''DROP TABLE users'') ''drop ''"
    by code_simp
  from write_statement_rejected [OF a b, of scripted_port
      "\<lparr>port_state = [row_batch ''id'' [1 :: rat]], trace = []\<rparr>" "[]" node_rt
      "\<lparr>pa_sql = [], pa_cursorField = None, pa_pageSize = 50,
         pa_cursor = None, pa_parameters = [], pa_includeCount = True\<rparr>"
      "\<lparr>sa_sql = [], sa_batchSize = 1000, sa_maxRows = 100000,
         sa_parameters = [], sa_cursorField = None, sa_outputType = Summary,
         sa_aggregations = None\<rparr>"]
  show ?thesis using a b by simp
qed

text \<open>
  Claim C3, the failing input: \<^verbatim>\<open>DELETE\<close> followed by a line break is not refused, and the
  statement reaches the port. The comment above the test, \<^verbatim>\<open>Basic validation to prevent
  destructive operations\<close>, and the error text, \<^verbatim>\<open>Data modification operations (DROP,
  DELETE, UPDATE, TRUNCATE, ALTER) are not allowed\<close>, say that it is refused: the list of
  prohibited operations holds each keyword with one trailing space.
\<close>

theorem write_keyword_counterexample:
  "str_includes (toLowerCase ''DELETE\<newline>FROM users'') ''delete''
   \<and> executeQueryTool scripted_port \<lparr>port_state = [row_batch ''id'' [1 :: rat]], trace = []\<rparr>
        \<lparr>ea_sql = ''DELETE\<newline>FROM users'', ea_parameters = []\<rparr>
      = (Success \<lparr>er_rowCount = 1, er_results = [[(''id'', JNum 1)]]\<rparr>,
         \<lparr>port_state = [],
          trace = [(''DELETE\<newline>FROM users'', [], row_batch ''id'' [1])]\<rparr>)"
  by code_simp

lemma generate_cursor_Some:
  "generate_cursor rt op row f = Some t \<Longrightarrow>
     \<exists>r. row = Some r \<and> f \<noteq> [] \<and> get_prop r f \<noteq> JUndefined
          \<and> t = encode_cursor rt f (get_prop r f) op"
  by (auto simp: generate_cursor_def Let_def split: option.splits if_splits)

lemma generate_cursor_defined:
  "f \<noteq> [] \<Longrightarrow> get_prop r f \<noteq> JUndefined \<Longrightarrow>
     generate_cursor rt op (Some r) f = Some (encode_cursor rt f (get_prop r f) op)"
  by (simp add: generate_cursor_def)

lemma paginatedQueryTool_Success:
  assumes "paginatedQueryTool rt port w args = (Success res, w')"
  shows "pm_returnedRows (pr_pagination res) = length (pr_results res)
         \<and> pm_pageSize (pr_pagination res) = pa_pageSize args
         \<and> pm_hasMore (pr_pagination res) = str_truthy (pm_nextCursor (pr_pagination res))
         \<and> pm_nextCursor (pr_pagination res) =
             (if pr_results res \<noteq> [] \<and> pa_pageSize args \<le> length (pr_results res)
              then generateNextCursor rt (Some (last (pr_results res)))
                     (pm_cursorField (pr_pagination res))
              else None)"
  using assms
  by (auto simp: paginatedQueryTool_def Let_def
           split: if_splits prod.splits sum.splits list.splits)

lemma utf8_encode_empty: "utf8_encode s = [] \<longleftrightarrow> s = []"
  by (cases s) (auto simp: utf8_encode_def Let_def)

lemma b64_encode_empty: "b64_encode bs = [] \<longleftrightarrow> bs = []"
  by (cases bs rule: b64_encode.cases) auto

lemma json_stringify_obj: "json_stringify (JObj kvs) \<noteq> []"
  by (simp add: json_stringify_def)

lemma node_rt_nonempty_tokens: "nonempty_tokens node_rt"
  by (simp add: nonempty_tokens_def encode_cursor_def node_rt_def cursor_record_def
                b64_encode_empty utf8_encode_empty json_stringify_obj)

text \<open>
  C1 (amended). In the pagination metadata of a page fetch, \<^verbatim>\<open>hasMore\<close> is true exactly
  when \<^verbatim>\<open>nextCursor\<close> is a non-empty token, and then the page is full: at least one row and
  at least \<^verbatim>\<open>pageSize\<close> rows were returned. When tokens are never empty, \<^verbatim>\<open>hasMore\<close> is true
  exactly when \<^verbatim>\<open>nextCursor\<close> is present, and on a full page that is exactly when the cursor
  field is not the empty string and the last row has a value under it, as a property of its
  own or as one inherited from \<^verbatim>\<open>Object.prototype\<close>.
\<close>

theorem paginated_hasMore:
  assumes "paginatedQueryTool rt port w args = (Success res, w')"
  shows "(pm_hasMore (pr_pagination res)
            \<longleftrightarrow> (\<exists>t. pm_nextCursor (pr_pagination res) = Some t \<and> t \<noteq> []))
         \<and> (pm_hasMore (pr_pagination res)
            \<longrightarrow> 0 < pm_returnedRows (pr_pagination res)
                \<and> pa_pageSize args \<le> pm_returnedRows (pr_pagination res))
         \<and> (nonempty_tokens rt
            \<longrightarrow> (pm_hasMore (pr_pagination res) \<longleftrightarrow> pm_nextCursor (pr_pagination res) \<noteq> None)
                \<and> (0 < pm_returnedRows (pr_pagination res)
                     \<and> pa_pageSize args \<le> pm_returnedRows (pr_pagination res)
                   \<longrightarrow> (pm_hasMore (pr_pagination res)
                        \<longleftrightarrow> pm_cursorField (pr_pagination res) \<noteq> []
                            \<and> get_prop (last (pr_results res)) (pm_cursorField (pr_pagination res))
                                \<noteq> JUndefined)))"
proof -
  let ?m = "pr_pagination res"
  note s = paginatedQueryTool_Success [OF assms]
  have n: "pm_returnedRows ?m = length (pr_results res)" using s by simp
  have h: "pm_hasMore ?m = str_truthy (pm_nextCursor ?m)" using s by simp
  have c: "pm_nextCursor ?m =
             (if pr_results res \<noteq> [] \<and> pa_pageSize args \<le> length (pr_results res)
              then generateNextCursor rt (Some (last (pr_results res))) (pm_cursorField ?m)
              else None)" using s by simp
  have 1: "pm_hasMore ?m \<longleftrightarrow> (\<exists>t. pm_nextCursor ?m = Some t \<and> t \<noteq> [])"
    unfolding h by (auto simp: str_truthy_def split: option.splits)
  have 2: "pm_hasMore ?m \<longrightarrow> 0 < pm_returnedRows ?m \<and> pa_pageSize args \<le> pm_returnedRows ?m"
    unfolding 1 n using c by (auto split: if_splits)
  have 3: "pm_hasMore ?m \<longleftrightarrow> pm_nextCursor ?m \<noteq> None" if ne: "nonempty_tokens rt"
  proof -
    have "t \<noteq> []" if t: "pm_nextCursor ?m = Some t" for t
    proof -
      from t c have "generate_cursor rt ''>'' (Some (last (pr_results res))) (pm_cursorField ?m)
                       = Some t"
        by (auto simp: generateNextCursor_def split: if_splits)
      then obtain f v where "t = encode_cursor rt f v ''>''"
        using generate_cursor_Some by blast
      with ne show ?thesis by (simp add: nonempty_tokens_def)
    qed
    then show ?thesis unfolding 1 by auto
  qed
  have 4: "pm_hasMore ?m \<longleftrightarrow> pm_cursorField ?m \<noteq> []
              \<and> get_prop (last (pr_results res)) (pm_cursorField ?m) \<noteq> JUndefined"
    if ne: "nonempty_tokens rt" and full: "0 < pm_returnedRows ?m"
       "pa_pageSize args \<le> pm_returnedRows ?m"
  proof -
    from full n have "pm_nextCursor ?m
        = generateNextCursor rt (Some (last (pr_results res))) (pm_cursorField ?m)"
      using c by simp
    then show ?thesis
      unfolding 3 [OF ne]
      by (auto simp: generateNextCursor_def generate_cursor_def Let_def)
  qed
  from 1 2 3 4 show ?thesis by blast
qed

theorem paginated_hasMore_witness:
  "paginatedQueryTool node_rt scripted_port
       \<lparr>port_state = [row_batch ''id'' [1, 2]], trace = []\<rparr>
       \<lparr>pa_sql = ''SELECT id FROM t'', pa_cursorField = None, pa_pageSize = 2,
        pa_cursor = None, pa_parameters = [], pa_includeCount = False\<rparr>
     = (Success
          \<lparr>pr_results = [[(''id'', JNum 1)], [(''id'', JNum 2)]],
           pr_pagination =
             \<lparr>pm_cursorField = ''id'', pm_pageSize = 2, pm_returnedRows = 2, pm_hasMore = True,
              pm_nextCursor = Some ''eyJmaWVsZCI6ImlkIiwidmFsdWUiOjIsIm9wZXJhdG9yIjoiPiJ9'',
              pm_prevCursor = None, pm_totalCount = JNull\<rparr>\<rparr>,
        \<lparr>port_state = [],
         trace = [(''SELECT id FROM t ORDER BY id ASC OFFSET 0 ROWS FETCH NEXT 2 ROWS ONLY'', [],
                   row_batch ''id'' [1, 2])]\<rparr>)
   \<and> nonempty_tokens node_rt
   \<and> get_prop [(''id'', JNum (2 :: rat))] ''id'' \<noteq> JUndefined"
proof -
  have run: "paginatedQueryTool node_rt scripted_port
       \<lparr>port_state = [row_batch ''id'' [1, 2]], trace = []\<rparr>
       \<lparr>pa_sql = ''SELECT id FROM t'', pa_cursorField = None, pa_pageSize = 2,
        pa_cursor = None, pa_parameters = [], pa_includeCount = False\<rparr>
     = (Success
          \<lparr>pr_results = [[(''id'', JNum 1)], [(''id'', JNum 2)]],
           pr_pagination =
             \<lparr>pm_cursorField = ''id'', pm_pageSize = 2, pm_returnedRows = 2, pm_hasMore = True,
              pm_nextCursor = Some ''eyJmaWVsZCI6ImlkIiwidmFsdWUiOjIsIm9wZXJhdG9yIjoiPiJ9'',
              pm_prevCursor = None, pm_totalCount = JNull\<rparr>\<rparr>,
        \<lparr>port_state = [],
         trace = [(''SELECT id FROM t ORDER BY id ASC OFFSET 0 ROWS FETCH NEXT 2 ROWS ONLY'', [],
                   row_batch ''id'' [1, 2])]\<rparr>)"
    by code_simp
  from paginated_hasMore [OF run] node_rt_nonempty_tokens
  show ?thesis using run by (simp add: get_prop_def)
qed

text \<open>
  C1 as stated fails: a full page whose rows lack the cursor field reports
  \<^verbatim>\<open>hasMore = false\<close> although \<^verbatim>\<open>returnedRows = pageSize\<close>.
\<close>

theorem paginated_hasMore_counterexample:
  "paginatedQueryTool node_rt scripted_port
       \<lparr>port_state = [row_batch ''name'' [7]], trace = []\<rparr>
       \<lparr>pa_sql = ''SELECT name FROM t'', pa_cursorField = None, pa_pageSize = 1,
        pa_cursor = None, pa_parameters = [], pa_includeCount = False\<rparr>
     = (Success
          \<lparr>pr_results = [[(''name'', JNum 7)]],
           pr_pagination =
             \<lparr>pm_cursorField = ''id'', pm_pageSize = 1, pm_returnedRows = 1, pm_hasMore = False,
              pm_nextCursor = None, pm_prevCursor = None, pm_totalCount = JNull\<rparr>\<rparr>,
        \<lparr>port_state = [],
         trace = [(''SELECT name FROM t ORDER BY id ASC OFFSET 0 ROWS FETCH NEXT 1 ROWS ONLY'', [],
                   row_batch ''name'' [7])]\<rparr>)"
  by code_simp


section \<open>Properties of the query streamer\<close>

subsection \<open>The batch loop\<close>

lemma executeQuery_trace:
  "executeQuery port w q ps = (res, w') \<Longrightarrow> trace w' = trace w @ [(q, ps, res)]"
  by (auto simp: executeQuery_def Let_def split: prod.splits)

lemma stream_batch_Inr:
  assumes "stream_batch rt port args eff dflt s w = (Inr s', w')"
  shows "\<exists>q ps res. trace w' = trace w @ [(q, ps, Inr res)]
           \<and> totalProcessedRows s' = totalProcessedRows s + length (rows_of res)
           \<and> hasMore s' = (sa_batchSize args \<le> length (rows_of res)
                             \<and> totalProcessedRows s' < sa_maxRows args)
           \<and> batchCount s' = Suc (batchCount s)
           \<and> aggregationResults s' =
               (case sa_aggregations args of
                  None \<Rightarrow> aggregationResults s
                | Some aggs \<Rightarrow> aggregate_rows aggs (aggregationResults s) (rows_of res))"
proof -
  from assms obtain st r where pq: "paginateQuery rt (ss_store s) (sa_sql args)
             \<lparr>opt_cursorField = Some eff, opt_pageSize = Some (sa_batchSize args),
              opt_cursor = ss_cursor s, opt_parameters = Some 0,
              opt_defaultCursorField = Some dflt\<rparr> = Inr (st, r)"
    by (auto simp: stream_batch_def split: sum.splits)
  from assms pq obtain res where ex: "executeQuery port w (r_paginatedSql r) (deref st (r_parameters r))
      = (Inr res, w')"
    by (auto simp: stream_batch_def Let_def split: sum.splits prod.splits option.splits)
  note tr = executeQuery_trace [OF ex]
  from assms pq ex have "totalProcessedRows s' = totalProcessedRows s + length (rows_of res)
           \<and> hasMore s' = (sa_batchSize args \<le> length (rows_of res)
                             \<and> totalProcessedRows s' < sa_maxRows args)
           \<and> batchCount s' = Suc (batchCount s)
           \<and> aggregationResults s' =
               (case sa_aggregations args of
                  None \<Rightarrow> aggregationResults s
                | Some aggs \<Rightarrow> aggregate_rows aggs (aggregationResults s) (rows_of res))"
    by (auto simp: stream_batch_def Let_def split: option.splits if_splits)
  with tr show ?thesis by blast
qed

lemma stream_batch_trace:
  "stream_batch rt port args eff dflt s w = (r, w') \<Longrightarrow> length (trace w') \<le> Suc (length (trace w))"
  by (auto simp: stream_batch_def Let_def dest!: executeQuery_trace
           split: sum.splits prod.splits option.splits)


lemma stream_loop_invariant:
  assumes run: "stream_loop rt port args eff dflt s w = Some (r, w')"
      and I0: "I s w"
      and step: "\<And>s w s' w'. I s w \<Longrightarrow> hasMore s \<Longrightarrow> totalProcessedRows s < sa_maxRows args
                   \<Longrightarrow> stream_batch rt port args eff dflt s w = (Inr s', w') \<Longrightarrow> I s' w'"
  shows "r = Inr s' \<Longrightarrow> I s' w' \<and> \<not> (hasMore s' \<and> totalProcessedRows s' < sa_maxRows args)"
proof -
  define P where "P = (\<lambda>rt0 port0 args0 eff0 dflt0 sa wa (y :: (thrown + _) \<times> _).
      rt0 = rt \<and> port0 = port \<and> args0 = args \<and> eff0 = eff \<and> dflt0 = dflt \<longrightarrow> I sa wa
          \<longrightarrow> (\<forall>s'. fst y = Inr s'
                \<longrightarrow> I s' (snd y) \<and> \<not> (hasMore s' \<and> totalProcessedRows s' < sa_maxRows args)))"
  have "P rt port args eff dflt s w (r, w')"
  proof (rule stream_loop.raw_induct [where P = P, OF _ run])
    fix f rt1 port1 args1 eff1 dflt1 s1 w1 y1
    assume IH: "\<And>rt port args eff dflt s w y. f rt port args eff dflt s w = Some y
                  \<Longrightarrow> P rt port args eff dflt s w y"
       and body: "(if hasMore s1 \<and> totalProcessedRows s1 < sa_maxRows args1
                   then case stream_batch rt1 port1 args1 eff1 dflt1 s1 w1 of
                          (Inl e, w') \<Rightarrow> Some (Inl e, w')
                        | (Inr s', w') \<Rightarrow> f rt1 port1 args1 eff1 dflt1 s' w'
                   else Some (Inr s1, w1)) = Some y1"
    show "P rt1 port1 args1 eff1 dflt1 s1 w1 y1"
      unfolding P_def
    proof (intro impI allI)
      fix s'
      assume eq: "rt1 = rt \<and> port1 = port \<and> args1 = args \<and> eff1 = eff \<and> dflt1 = dflt"
         and i: "I s1 w1" and y: "fst y1 = Inr s'"
      show "I s' (snd y1) \<and> \<not> (hasMore s' \<and> totalProcessedRows s' < sa_maxRows args)"
      proof (cases "hasMore s1 \<and> totalProcessedRows s1 < sa_maxRows args")
        case False
        with body eq y i show ?thesis by auto
      next
        case True
        obtain b w2 where b: "stream_batch rt port args eff dflt s1 w1 = (b, w2)"
          by (cases "stream_batch rt port args eff dflt s1 w1") auto
        show ?thesis
        proof (cases b)
          case (Inl e)
          with body eq True b y show ?thesis by auto
        next
          case (Inr s2)
          with b True i have "I s2 w2" using step by blast
          moreover from body eq True b Inr have "f rt port args eff dflt s2 w2 = Some y1" by auto
          then have "P rt port args eff dflt s2 w2 y1" by (rule IH)
          ultimately show ?thesis using y unfolding P_def by blast
        qed
      qed
    qed
  qed
  with I0 show "r = Inr s' \<Longrightarrow> I s' w' \<and> \<not> (hasMore s' \<and> totalProcessedRows s' < sa_maxRows args)"
    unfolding P_def by simp
qed

subsection \<open>The accumulators\<close>

lemma agg_key_inj [simp]: "agg_key o1 f1 = agg_key o2 f2 \<longleftrightarrow> o1 = o2 \<and> f1 = f2"
  by (cases o1; cases o2; simp add: agg_key_def)

lemma add_to_slot_shape: "add_to_slot m key v = m \<or> (\<exists>a. add_to_slot m key v = m(key \<mapsto> a))"
  by (cases "m key") (auto simp: add_to_slot_def split: acc.splits)

lemma add_to_slot_same: "m key = Some (AccNum x) \<Longrightarrow> add_to_slot m key v key = Some (AccNum (x + v))"
  by (simp add: add_to_slot_def)

lemma aggregate_value_shape:
  "aggregate_value b m row (f, operation) = m
     \<or> (\<exists>a. aggregate_value b m row (f, operation) = m(agg_key operation f \<mapsto> a))"
proof (cases "get_prop row f \<noteq> JNull \<and> get_prop row f \<noteq> JUndefined")
  case False
  then show ?thesis by (auto simp: aggregate_value_def Let_def)
next
  case True
  show ?thesis
  proof (cases operation)
    case Sum
    with True add_to_slot_shape [of m "agg_key Sum f"] show ?thesis
      by (cases "get_prop row f") (auto simp: aggregate_value_def)
  next
    case Avg
    with True add_to_slot_shape [of m "agg_key Avg f"] show ?thesis
      by (cases "get_prop row f") (auto simp: aggregate_value_def)
  next
    case Min
    with True show ?thesis
      by (cases "get_prop row f"; cases "m (agg_key Min f)")
         (auto simp: aggregate_value_def split: acc.splits)
  next
    case Max
    with True show ?thesis
      by (cases "get_prop row f"; cases "m (agg_key Max f)")
         (auto simp: aggregate_value_def split: acc.splits)
  next
    case Count
    with True add_to_slot_shape [of m "agg_key Count f" 1] show ?thesis
      by (auto simp: aggregate_value_def)
  next
    case CountDistinct
    with True show ?thesis
      by (cases "m (agg_key CountDistinct f)")
         (auto simp: aggregate_value_def Let_def split: acc.splits)
  qed
qed

lemma aggregate_value_other:
  assumes "agg \<noteq> (f, operation)"
  shows "aggregate_value b m row agg (agg_key operation f) = m (agg_key operation f)"
proof -
  obtain f' op' where agg: "agg = (f', op')" by (cases agg)
  with assms have "agg_key op' f' \<noteq> agg_key operation f" by auto
  with aggregate_value_shape [of b m row f' op'] show ?thesis
    unfolding agg by auto
qed

lemma aggregate_value_same:
  assumes "operation \<in> {Sum, Avg, Count}" and "m (agg_key operation f) = Some (AccNum x)"
  shows "aggregate_value b m row (f, operation) (agg_key operation f)
           = Some (AccNum (slot_step operation f row x))"
proof (cases "get_prop row f \<noteq> JNull \<and> get_prop row f \<noteq> JUndefined")
  case False
  then show ?thesis using assms
    by (auto simp: aggregate_value_def slot_step_def)
next
  case True
  with assms show ?thesis
    by (cases "get_prop row f")
       (auto simp: aggregate_value_def add_to_slot_same slot_step_def)
qed

lemma foldl_keeps:
  assumes "\<And>m x. x \<in> set xs \<Longrightarrow> g (step m x) = g m"
  shows "g (foldl step m xs) = g m"
  using assms by (induction xs arbitrary: m) simp_all

lemma foldl_once:
  assumes "count_list xs a = 1"
      and keep: "\<And>m x. x \<noteq> a \<Longrightarrow> g (step m x) = g m"
      and hit: "\<And>m. g m = u \<Longrightarrow> g (step m a) = v"
      and "g m = u"
  shows "g (foldl step m xs) = v"
proof -
  from assms(1) have "a \<in> set xs" by (metis count_list_0_iff zero_neq_one)
  then obtain as bs where sp: "xs = as @ a # bs" and n1: "a \<notin> set as"
    by (auto dest: split_list_first)
  from assms(1) n1 have "count_list bs a = 0" unfolding sp by (simp add: count_list_0_iff)
  then have n2: "a \<notin> set bs" by (simp add: count_list_0_iff)
  have "g (foldl step m as) = g m"
  proof (rule foldl_keeps)
    fix m' x assume "x \<in> set as"
    with n1 have "x \<noteq> a" by auto
    then show "g (step m' x) = g m'" by (rule keep)
  qed
  with assms(4) have "g (foldl step m as) = u" by simp
  then have "g (step (foldl step m as) a) = v" by (rule hit)
  moreover have "g (foldl step (step (foldl step m as) a) bs) = g (step (foldl step m as) a)"
  proof (rule foldl_keeps)
    fix m' x assume "x \<in> set bs"
    with n2 have "x \<noteq> a" by auto
    then show "g (step m' x) = g m'" by (rule keep)
  qed
  ultimately show ?thesis unfolding sp by simp
qed

lemma fold_aggs_other:
  "(f, operation) \<notin> set aggs \<Longrightarrow>
     foldl (\<lambda>m agg. aggregate_value b m row agg) m aggs (agg_key operation f) = m (agg_key operation f)"
  by (rule foldl_keeps [where g = "\<lambda>m. m (agg_key operation f)"])
     (auto intro: aggregate_value_other)

lemma fold_aggs_same:
  assumes "operation \<in> {Sum, Avg, Count}" and "count_list aggs (f, operation) = 1"
      and "m (agg_key operation f) = Some (AccNum x)"
  shows "foldl (\<lambda>m agg. aggregate_value b m row agg) m aggs (agg_key operation f)
           = Some (AccNum (slot_step operation f row x))"
  by (rule foldl_once [where g = "\<lambda>m. m (agg_key operation f)" and a = "(f, operation)"
                         and u = "Some (AccNum x)"])
     (use assms in \<open>auto intro: aggregate_value_other aggregate_value_same\<close>)

lemma aggregate_rows_slot:
  assumes "operation \<in> {Sum, Avg, Count}" and "count_list aggs (f, operation) = 1"
  shows "m (agg_key operation f) = Some (AccNum x) \<Longrightarrow>
         aggregate_rows aggs m rws (agg_key operation f)
           = Some (AccNum (foldl (\<lambda>y row. slot_step operation f row y) x rws))"
proof (induction rws arbitrary: m x)
  case Nil
  then show ?case by (simp add: aggregate_rows_def)
next
  case (Cons row rws)
  let ?m = "foldl (\<lambda>m' agg. aggregate_value m m' row agg) m aggs"
  have "?m (agg_key operation f) = Some (AccNum (slot_step operation f row x))"
    using assms Cons.prems by (rule fold_aggs_same)
  then have "aggregate_rows aggs ?m rws (agg_key operation f)
           = Some (AccNum (foldl (\<lambda>y row. slot_step operation f row y)
                             (slot_step operation f row x) rws))"
    by (rule Cons.IH)
  then show ?case by (simp add: aggregate_rows_def)
qed

lemma aggregate_rows_absent:
  "(f, operation) \<notin> set aggs \<Longrightarrow>
     aggregate_rows aggs m rws (agg_key operation f) = m (agg_key operation f)"
  unfolding aggregate_rows_def
  by (rule foldl_keeps [where g = "\<lambda>m. m (agg_key operation f)"]) (simp add: fold_aggs_other)

lemma aggregate_rows_append:
  "aggregate_rows aggs (aggregate_rows aggs m xs) ys = aggregate_rows aggs m (xs @ ys)"
  by (simp add: aggregate_rows_def)

lemma sum_steps: "foldl (\<lambda>y row. slot_step Sum f row y) x rws = foldl (+) x (numeric_values f rws)"
  by (induction rws arbitrary: x) (auto simp: slot_step_def numeric_values_def split: jsval.splits)

lemma avg_steps: "foldl (\<lambda>y row. slot_step Avg f row y) x rws = foldl (+) x (numeric_values f rws)"
  by (induction rws arbitrary: x) (auto simp: slot_step_def numeric_values_def split: jsval.splits)

lemma count_steps:
  "foldl (\<lambda>y row. slot_step Count f row y) x rws = foldl (\<lambda>y v. y + 1) x (present_values f rws)"
  by (induction rws arbitrary: x) (auto simp: slot_step_def present_values_def)

lemma count_from_zero: "foldl (\<lambda>y v. y + 1) 0 vs = num_of_nat (length vs)"
  by (induction vs rule: rev_induct) simp_all

lemma foldl_last_hit:
  assumes "a \<in> set xs"
      and keep: "\<And>m x. x \<noteq> a \<Longrightarrow> g (step m x) = g m"
      and hit: "\<And>m. g (step m a) = v"
  shows "g (foldl step m xs) = v"
proof -
  from assms(1) obtain as bs where sp: "xs = as @ a # bs" and n: "a \<notin> set bs"
    by (auto dest: split_list_last)
  have "g (foldl step (step (foldl step m as) a) bs) = g (step (foldl step m as) a)"
  proof (rule foldl_keeps)
    fix m' x assume "x \<in> set bs"
    with n have "x \<noteq> a" by auto
    then show "g (step m' x) = g m'" by (rule keep)
  qed
  then show ?thesis unfolding sp by (simp add: hit)
qed

lemma init_other:
  assumes "agg \<noteq> (f, operation)"
  shows "init_aggregation rt m agg (agg_key operation f) = m (agg_key operation f)"
proof -
  obtain f' op' where agg: "agg = (f', op')" by (cases agg)
  with assms have "agg_key op' f' \<noteq> agg_key operation f" by auto
  then show ?thesis
    unfolding agg by (cases op') (auto simp: init_aggregation_def)
qed

lemma init_same:
  "operation \<in> {Sum, Avg, Count} \<Longrightarrow>
     init_aggregation rt m (f, operation) (agg_key operation f) = Some (AccNum 0)"
  by (auto simp: init_aggregation_def)

lemma init_fold_absent:
  "(f, operation) \<notin> set aggs \<Longrightarrow>
     foldl (init_aggregation rt) m aggs (agg_key operation f) = m (agg_key operation f)"
  by (rule foldl_keeps [where g = "\<lambda>m. m (agg_key operation f)"]) (auto intro: init_other)

lemma init_fold_present:
  assumes "operation \<in> {Sum, Avg, Count}" and "(f, operation) \<in> set aggs"
  shows "foldl (init_aggregation rt) m aggs (agg_key operation f) = Some (AccNum 0)"
  by (rule foldl_last_hit [where g = "\<lambda>m. m (agg_key operation f)" and a = "(f, operation)"])
     (use assms in \<open>auto intro: init_other init_same\<close>)

lemma finalize_shape:
  "finalize_aggregation t m (f, operation) = m
     \<or> (operation \<in> {Avg, CountDistinct}
         \<and> (\<exists>a. finalize_aggregation t m (f, operation) = m(agg_key operation f \<mapsto> a)))"
proof (cases operation)
  case Avg
  then show ?thesis
    by (cases "m (agg_key Avg f)")
       (auto simp: finalize_aggregation_def Let_def split: acc.splits)
next
  case CountDistinct
  then show ?thesis
    by (cases "m (agg_key CountDistinct f)")
       (auto simp: finalize_aggregation_def Let_def split: acc.splits)
qed (simp_all add: finalize_aggregation_def)

lemma finalize_other:
  assumes "agg \<noteq> (f, operation)"
  shows "finalize_aggregation t m agg (agg_key operation f) = m (agg_key operation f)"
proof -
  obtain f' op' where agg: "agg = (f', op')" by (cases agg)
  with assms have "agg_key op' f' \<noteq> agg_key operation f" by auto
  with finalize_shape [of t m f' op'] show ?thesis
    unfolding agg by auto
qed

lemma finalize_not_avg:
  assumes "operation \<in> {Sum, Count}"
  shows "finalize_aggregation t m agg (agg_key operation f) = m (agg_key operation f)"
proof -
  obtain f' op' where agg: "agg = (f', op')" by (cases agg)
  from finalize_shape [of t m f' op'] assms show ?thesis
    unfolding agg by auto
qed

lemma finalize_fold_keeps:
  "operation \<in> {Sum, Count} \<Longrightarrow>
     foldl (finalize_aggregation t) m aggs (agg_key operation f) = m (agg_key operation f)"
  by (rule foldl_keeps [where g = "\<lambda>m. m (agg_key operation f)"]) (simp add: finalize_not_avg)

lemma finalize_avg:
  assumes "m (agg_key Avg f) = Some (AccNum x)"
  shows "finalize_aggregation t m (f, Avg) (agg_key Avg f)
           = Some (AccNum (if 0 < avg_divisor t (m (agg_key Count f))
                           then x / avg_divisor t (m (agg_key Count f)) else x))"
  using assms
  by (simp add: finalize_aggregation_def Let_def avg_divisor_def agg_key_def)

lemma finalize_fold_avg:
  assumes "count_list aggs (f, Avg) = 1" and "m (agg_key Avg f) = Some (AccNum x)"
  shows "foldl (finalize_aggregation t) m aggs (agg_key Avg f)
           = Some (AccNum (if 0 < avg_divisor t (m (agg_key Count f))
                           then x / avg_divisor t (m (agg_key Count f)) else x))"
proof -
  from assms(1) have "(f, Avg) \<in> set aggs" by (metis count_list_0_iff zero_neq_one)
  then obtain as bs where sp: "aggs = as @ (f, Avg) # bs" and n1: "(f, Avg) \<notin> set as"
    by (auto dest: split_list_first)
  from assms(1) n1 have "count_list bs (f, Avg) = 0" unfolding sp by (simp add: count_list_0_iff)
  then have n2: "(f, Avg) \<notin> set bs" by (simp add: count_list_0_iff)
  let ?m = "foldl (finalize_aggregation t) m as"
  have "?m (agg_key Avg f) = m (agg_key Avg f)"
    by (rule foldl_keeps [where g = "\<lambda>m. m (agg_key Avg f)"])
       (use n1 in \<open>auto intro: finalize_other\<close>)
  with assms(2) have a: "?m (agg_key Avg f) = Some (AccNum x)" by simp
  have c: "?m (agg_key Count f) = m (agg_key Count f)"
    by (simp add: finalize_fold_keeps)
  have "foldl (finalize_aggregation t) (finalize_aggregation t ?m (f, Avg)) bs (agg_key Avg f)
          = finalize_aggregation t ?m (f, Avg) (agg_key Avg f)"
    by (rule foldl_keeps [where g = "\<lambda>m. m (agg_key Avg f)"])
       (use n2 in \<open>auto intro: finalize_other\<close>)
  then show ?thesis
    unfolding sp using finalize_avg [of ?m f x t, OF a] c by simp
qed

subsection \<open>The invariant holds along a run\<close>

lemma batches_of_append: "batches_of (xs @ ys) = batches_of xs @ batches_of ys"
  by (simp add: batches_of_def)

lemma batches_of_Inr: "batches_of [(q, ps, Inr res)] = [rows_of res]"
  by (simp add: batches_of_def)

lemma fetched_append: "trace w' = trace w @ new \<Longrightarrow> fetched w w' = batches_of new"
  by (simp add: fetched_def)

lemma run_inv_initial: "run_inv rt args (initial_stream_state rt args) []"
  by (simp add: run_inv_def initial_stream_state_def aggregate_rows_def split: option.splits)

lemma run_inv_step:
  assumes inv: "run_inv rt args s bs"
      and more: "hasMore s" "totalProcessedRows s < sa_maxRows args"
      and t: "totalProcessedRows s' = totalProcessedRows s + length rws"
      and h: "hasMore s' = (sa_batchSize args \<le> length rws
                             \<and> totalProcessedRows s' < sa_maxRows args)"
      and c: "batchCount s' = Suc (batchCount s)"
      and a: "aggregationResults s' =
               (case sa_aggregations args of
                  None \<Rightarrow> aggregationResults s
                | Some aggs \<Rightarrow> aggregate_rows aggs (aggregationResults s) rws)"
  shows "run_inv rt args s' (bs @ [rws])"
proof -
  have full: "\<forall>b \<in> set bs. sa_batchSize args \<le> length b"
  proof (cases "bs = []")
    case True
    then show ?thesis by simp
  next
    case False
    then have "bs = butlast bs @ [last bs]" by simp
    moreover from inv False more(1) have "sa_batchSize args \<le> length (last bs)"
      by (simp add: run_inv_def)
    moreover from inv have "\<forall>b \<in> set (butlast bs). sa_batchSize args \<le> length b"
      by (simp add: run_inv_def)
    ultimately show ?thesis by (metis Un_iff insert_iff list.set(2) set_append empty_iff list.set(1))
  qed
  from inv have tot: "totalProcessedRows s = length (concat bs)" by (simp add: run_inv_def)
  show ?thesis
    unfolding run_inv_def
  proof (intro conjI)
    show "totalProcessedRows s' = length (concat (bs @ [rws]))" using t tot by simp
    show "batchCount s' = length (bs @ [rws])" using c inv by (simp add: run_inv_def)
    show "aggregationResults s' =
         (case sa_aggregations args of
            None \<Rightarrow> Map.empty
          | Some aggs \<Rightarrow>
              aggregate_rows aggs (foldl (init_aggregation rt) Map.empty aggs)
                (concat (bs @ [rws])))"
      using a inv by (simp add: run_inv_def aggregate_rows_append split: option.splits)
    show "bs @ [rws] \<noteq> [] \<longrightarrow> length (concat (butlast (bs @ [rws]))) < sa_maxRows args"
      using more(2) tot by simp
    show "\<forall>b \<in> set (butlast (bs @ [rws])). sa_batchSize args \<le> length b"
      using full by simp
    show "if bs @ [rws] = [] then hasMore s'
          else hasMore s' = (sa_batchSize args \<le> length (last (bs @ [rws]))
                             \<and> length (concat (bs @ [rws])) < sa_maxRows args)"
      using h t tot by simp
  qed
qed

lemma stream_loop_result:
  fixes w :: "('w, 'n::{zero,one,plus,ord}) world"
  assumes "stream_loop rt port args eff dflt (initial_stream_state rt args) w = Some (Inr s, w')"
  shows "\<exists>new. trace w' = trace w @ new \<and> run_inv rt args s (batches_of new)
               \<and> \<not> (hasMore s \<and> totalProcessedRows s < sa_maxRows args)"
proof -
  define I where "I = (\<lambda>s (w1 :: ('w, 'n) world).
      \<exists>new. trace w1 = trace w @ new \<and> run_inv rt args s (batches_of new))"
  have I0: "I (initial_stream_state rt args) w"
    unfolding I_def by (rule exI [of _ "[]"]) (simp add: batches_of_def run_inv_initial)
  have step: "I s2 w2"
    if "I s1 w1" "hasMore s1" "totalProcessedRows s1 < sa_maxRows args"
       "stream_batch rt port args eff dflt s1 w1 = (Inr s2, w2)" for s1 w1 s2 w2
  proof -
    from that(1) obtain new where n: "trace w1 = trace w @ new"
        and inv: "run_inv rt args s1 (batches_of new)"
      unfolding I_def by blast
    from stream_batch_Inr [OF that(4)] obtain q ps res where
      tr: "trace w2 = trace w1 @ [(q, ps, Inr res)]"
      and t: "totalProcessedRows s2 = totalProcessedRows s1 + length (rows_of res)"
      and h: "hasMore s2 = (sa_batchSize args \<le> length (rows_of res)
                             \<and> totalProcessedRows s2 < sa_maxRows args)"
      and c: "batchCount s2 = Suc (batchCount s1)"
      and a: "aggregationResults s2 =
               (case sa_aggregations args of
                  None \<Rightarrow> aggregationResults s1
                | Some aggs \<Rightarrow> aggregate_rows aggs (aggregationResults s1) (rows_of res))"
      by blast
    have "run_inv rt args s2 (batches_of new @ [rows_of res])"
      using inv that(2) that(3) t h c a by (rule run_inv_step)
    then show ?thesis
      unfolding I_def
      by (intro exI [of _ "new @ [(q, ps, Inr res)]"])
         (simp add: tr n batches_of_append batches_of_Inr)
  qed
  have "I s w' \<and> \<not> (hasMore s \<and> totalProcessedRows s < sa_maxRows args)"
  proof (rule stream_loop_invariant [where I = I, OF assms I0])
    fix s1 w1 s2 w2
    assume "I s1 w1" "hasMore s1" "totalProcessedRows s1 < sa_maxRows args"
           "stream_batch rt port args eff dflt s1 w1 = (Inr s2, w2)"
    then show "I s2 w2" by (rule step)
  qed simp
  then show ?thesis unfolding I_def by blast
qed

lemma queryStreamerTool_Success:
  assumes "queryStreamerTool rt port w args = Some (Success sm, w')"
  shows "\<exists>eff dflt s. stream_loop rt port args eff dflt (initial_stream_state rt args) w
                         = Some (Inr s, w')
                     \<and> sm = summary_of args s"
  using assms
  by (auto simp: queryStreamerTool_def Let_def
           split: if_splits sum.splits option.splits prod.splits)

lemma streamer_run:
  assumes "queryStreamerTool rt port w args = Some (Success sm, w')"
  shows "\<exists>s. sm = summary_of args s \<and> run_inv rt args s (fetched w w')
             \<and> \<not> (hasMore s \<and> totalProcessedRows s < sa_maxRows args)
             \<and> length (trace w') = length (trace w) + length (fetched w w')"
proof -
  from queryStreamerTool_Success [OF assms] obtain eff dflt s where
    l: "stream_loop rt port args eff dflt (initial_stream_state rt args) w = Some (Inr s, w')"
    and sm: "sm = summary_of args s" by blast
  from stream_loop_result [OF l] obtain new where
    "trace w' = trace w @ new" "run_inv rt args s (batches_of new)"
    "\<not> (hasMore s \<and> totalProcessedRows s < sa_maxRows args)" by blast
  with sm show ?thesis
    by (intro exI [of _ s]) (simp add: fetched_append batches_of_def)
qed


lemma concat_take_le: "length (concat (take k xs)) \<le> length (concat xs)"
proof -
  have "length (concat xs) = length (concat (take k xs)) + length (concat (drop k xs))"
    by (metis append_take_drop_id concat_append length_append)
  then show ?thesis by simp
qed


lemma sum_key: "''sum:'' @ f = agg_key Sum f" and avg_key: "''avg:'' @ f = agg_key Avg f"
  by (simp_all add: agg_key_def)

lemma distinct_count_once: "distinct xs \<Longrightarrow> x \<in> set xs \<Longrightarrow> count_list xs x = 1"
  by (induction xs) auto

lemma count_once_member: "count_list xs x = 1 \<Longrightarrow> x \<in> set xs"
  by (rule ccontr) (simp add: count_list_0_iff [symmetric])

lemma slot_once:
  assumes op: "operation \<in> {Sum, Avg, Count}" and once: "count_list aggs (f, operation) = 1"
  shows "aggregate_rows aggs (foldl (init_aggregation rt) Map.empty aggs) rws (agg_key operation f)
           = Some (AccNum (foldl (\<lambda>y row. slot_step operation f row y) 0 rws))"
proof -
  from once have "(f, operation) \<in> set aggs" by (rule count_once_member)
  with op have i: "foldl (init_aggregation rt) Map.empty aggs (agg_key operation f)
                    = Some (AccNum 0)"
    by (rule init_fold_present)
  show ?thesis
    by (rule aggregate_rows_slot
          [of operation aggs f "foldl (init_aggregation rt) Map.empty aggs" 0, OF op once i])
qed

lemma slot_absent:
  assumes "(f, operation) \<notin> set aggs"
  shows "aggregate_rows aggs (foldl (init_aggregation rt) Map.empty aggs) rws (agg_key operation f)
           = None"
  using assms by (simp add: aggregate_rows_absent init_fold_absent)

lemma streamer_state:
  assumes run: "queryStreamerTool rt port w args = Some (Success sm, w')"
      and aggs: "sa_aggregations args = Some aggs"
  shows "\<exists>s. sm = summary_of args s
           \<and> totalProcessedRows s = length (concat (fetched w w'))
           \<and> aggregationResults s =
               aggregate_rows aggs (foldl (init_aggregation rt) Map.empty aggs)
                 (concat (fetched w w'))"
proof -
  from streamer_run [OF run] obtain s where
    sm: "sm = summary_of args s" and inv: "run_inv rt args s (fetched w w')" by blast
  from inv aggs have a: "aggregationResults s =
      aggregate_rows aggs (foldl (init_aggregation rt) Map.empty aggs) (concat (fetched w w'))"
    and t: "totalProcessedRows s = length (concat (fetched w w'))"
    by (simp_all add: run_inv_def)
  show ?thesis
    by (rule exI [of _ s]) (simp add: sm a t)
qed

lemma streamer_sum_value:
  assumes r: "queryStreamerTool rt port w args = Some (Success sm, w')"
      and a: "sa_aggregations args = Some aggs" "count_list aggs (f, Sum) = 1"
  shows "sm_aggregations sm (''sum:'' @ f)
           = Some (AccNum (foldl (+) 0 (numeric_values f (concat (fetched w w')))))"
proof -
  from streamer_state [OF r a(1)] obtain s where
    sm: "sm = summary_of args s"
    and ar: "aggregationResults s =
               aggregate_rows aggs (foldl (init_aggregation rt) Map.empty aggs)
                 (concat (fetched w w'))"
    by blast
  have sl: "aggregationResults s (agg_key Sum f) =
               Some (AccNum (foldl (\<lambda>y row. slot_step Sum f row y) 0 (concat (fetched w w'))))"
    unfolding ar by (rule slot_once) (simp_all add: a(2))
  show ?thesis
    unfolding sum_key sm using sl a(1)
    by (simp add: summary_of_def finalize_fold_keeps sum_steps)
qed

subsection \<open>The example runs\<close>

lemma example_run_2:
  "run_world (queryStreamerTool node_rt scripted_port example_world_2 (example_args 2))
     = Some \<lparr>port_state = [],
             trace =
               [(''SELECT id, amount FROM sales ORDER BY id ASC OFFSET 0 ROWS FETCH NEXT 2 ROWS ONLY'',
                 [], amounts [(1, 10), (2, 20)]),
                (''SELECT id, amount FROM sales ORDER BY id ASC WHERE [id] > @cursor_id OFFSET 0 ROWS FETCH NEXT 2 ROWS ONLY'',
                 [(''cursor_id'', JNum 2)], amounts [(3, 30), (4, 40)]),
                (''SELECT id, amount FROM sales ORDER BY id ASC WHERE [id] > @cursor_id OFFSET 0 ROWS FETCH NEXT 2 ROWS ONLY'',
                 [(''cursor_id'', JNum 4)], amounts [(5, 5)])]\<rparr>"
  by code_simp

lemma example_run_5:
  "run_world (queryStreamerTool node_rt scripted_port example_world_5 (example_args 5))
     = Some \<lparr>port_state = [],
             trace =
               [(''SELECT id, amount FROM sales ORDER BY id ASC OFFSET 0 ROWS FETCH NEXT 5 ROWS ONLY'',
                 [], amounts [(1, 10), (2, 20), (3, 30), (4, 40), (5, 5)]),
                (''SELECT id, amount FROM sales ORDER BY id ASC WHERE [id] > @cursor_id OFFSET 0 ROWS FETCH NEXT 5 ROWS ONLY'',
                 [(''cursor_id'', JNum 5)], amounts [])]\<rparr>"
  by code_simp

lemma run_world_Some:
  "run_world r = Some w' \<Longrightarrow> \<exists>sm. r = Some (Success sm, w')"
  by (auto simp: run_world_def split: option.splits prod.splits response.splits)

lemma example_run_2':
  "\<exists>sm. queryStreamerTool node_rt scripted_port example_world_2 (example_args 2)
          = Some (Success sm, \<lparr>port_state = [], trace = example_trace_2\<rparr>)"
  using example_run_2 unfolding example_trace_2_def by (rule run_world_Some)

lemma example_fetched_2:
  "fetched example_world_2 \<lparr>port_state = [], trace = example_trace_2\<rparr>
     = [[[(''id'', JNum 1), (''amount'', JNum 10)], [(''id'', JNum 2), (''amount'', JNum 20)]],
        [[(''id'', JNum 3), (''amount'', JNum 30)], [(''id'', JNum 4), (''amount'', JNum 40)]],
        [[(''id'', JNum 5), (''amount'', JNum 5)]]]"
  by code_simp

lemma example_run_5':
  "\<exists>sm w'. queryStreamerTool node_rt scripted_port example_world_5 (example_args 5)
          = Some (Success sm, w')
       \<and> fetched example_world_5 w'
         = [[[(''id'', JNum 1), (''amount'', JNum 10)], [(''id'', JNum 2), (''amount'', JNum 20)],
             [(''id'', JNum 3), (''amount'', JNum 30)], [(''id'', JNum 4), (''amount'', JNum 40)],
             [(''id'', JNum 5), (''amount'', JNum 5)]], []]"
proof -
  from example_run_5 [THEN run_world_Some] obtain sm where
    "queryStreamerTool node_rt scripted_port example_world_5 (example_args 5)
          = Some (Success sm, \<lparr>port_state = [],
             trace =
               [(''SELECT id, amount FROM sales ORDER BY id ASC OFFSET 0 ROWS FETCH NEXT 5 ROWS ONLY'',
                 [], amounts [(1, 10), (2, 20), (3, 30), (4, 40), (5, 5)]),
                (''SELECT id, amount FROM sales ORDER BY id ASC WHERE [id] > @cursor_id OFFSET 0 ROWS FETCH NEXT 5 ROWS ONLY'',
                 [(''cursor_id'', JNum 5)], amounts [])]\<rparr>)" by blast
  moreover have "fetched example_world_5 \<lparr>port_state = [],
             trace =
               [(''SELECT id, amount FROM sales ORDER BY id ASC OFFSET 0 ROWS FETCH NEXT 5 ROWS ONLY'',
                 [], amounts [(1, 10), (2, 20), (3, 30), (4, 40), (5, 5)]),
                (''SELECT id, amount FROM sales ORDER BY id ASC WHERE [id] > @cursor_id OFFSET 0 ROWS FETCH NEXT 5 ROWS ONLY'',
                 [(''cursor_id'', JNum 5)], amounts [])]\<rparr>
         = [[[(''id'', JNum 1), (''amount'', JNum 10)], [(''id'', JNum 2), (''amount'', JNum 20)],
             [(''id'', JNum 3), (''amount'', JNum 30)], [(''id'', JNum 4), (''amount'', JNum 40)],
             [(''id'', JNum 5), (''amount'', JNum 5)]], []]"
    by code_simp
  ultimately show ?thesis by blast
qed

lemma example_values:
  "numeric_values ''amount''
     [[(''id'', JNum 1), (''amount'', JNum 10)], [(''id'', JNum 2), (''amount'', JNum 20)],
      [(''id'', JNum 3), (''amount'', JNum 30)], [(''id'', JNum 4), (''amount'', JNum 40)],
      [(''id'', JNum 5), (''amount'', JNum (5::rat))]] = [10, 20, 30, 40, 5]"
  by code_simp

subsection \<open>Termination, the row cap and the aggregates\<close>



text \<open>
  Claim C6, as the code has it. The reported total is the number of rows of all fetched
  batches. Before every fetch the number of processed rows is below \<open>maxRows\<close>, so at the end
  the total is below \<open>maxRows\<close> plus the size of the last batch; the last batch is processed
  whole.
\<close>

theorem streamer_total_bound:
  assumes "queryStreamerTool rt port w args = Some (Success sm, w')"
  shows "totalRows sm = length (concat (fetched w w'))
         \<and> (\<forall>k < length (fetched w w'). length (concat (take k (fetched w w'))) < sa_maxRows args)
         \<and> (fetched w w' \<noteq> []
              \<longrightarrow> totalRows sm < sa_maxRows args + length (last (fetched w w')))"
proof -
  let ?bs = "fetched w w'"
  from streamer_run [OF assms] obtain s where
    sm: "sm = summary_of args s" and inv: "run_inv rt args s ?bs" by blast
  from inv have tot: "totalProcessedRows s = length (concat ?bs)"
    and before: "?bs \<noteq> [] \<longrightarrow> length (concat (butlast ?bs)) < sa_maxRows args"
    by (simp_all add: run_inv_def)
  have 1: "totalRows sm = length (concat ?bs)" using sm tot by (simp add: summary_of_def)
  have 2: "length (concat (take k ?bs)) < sa_maxRows args" if "k < length ?bs" for k
  proof -
    from that have ne: "?bs \<noteq> []" by auto
    from that have "take k ?bs = take k (butlast ?bs)" by (simp add: take_butlast)
    then have "length (concat (take k ?bs)) \<le> length (concat (butlast ?bs))"
      by (simp add: concat_take_le)
    with before ne show ?thesis by simp
  qed
  have 3: "totalRows sm < sa_maxRows args + length (last ?bs)" if "?bs \<noteq> []"
  proof -
    from that have "?bs = butlast ?bs @ [last ?bs]" by simp
    then have "concat ?bs = concat (butlast ?bs) @ last ?bs"
      by (metis concat.simps(1) concat.simps(2) concat_append append_Nil2)
    then have "length (concat ?bs) = length (concat (butlast ?bs)) + length (last ?bs)"
      by simp
    with before that 1 show ?thesis by simp
  qed
  from 1 2 3 show ?thesis by blast
qed

theorem streamer_total_bound_witness:
  "\<exists>sm w'. queryStreamerTool node_rt scripted_port example_world_2 (example_args 2)
              = Some (Success sm, w')
           \<and> totalRows sm = 5
           \<and> length (fetched example_world_2 w') = 3
           \<and> totalRows sm < sa_maxRows (example_args 2) + length (last (fetched example_world_2 w'))"
proof -
  let ?w' = "\<lparr>port_state = [], trace = example_trace_2\<rparr>"
  from example_run_2' obtain sm where
    run: "queryStreamerTool node_rt scripted_port example_world_2 (example_args 2)
          = Some (Success sm, ?w')" by blast
  from streamer_total_bound [OF run]
  have t: "totalRows sm = length (concat (fetched example_world_2 ?w'))"
    and b: "fetched example_world_2 ?w' \<noteq> []
              \<longrightarrow> totalRows sm < sa_maxRows (example_args 2)
                                   + length (last (fetched example_world_2 ?w'))"
    by blast+
  have 5: "totalRows sm = 5" using t by (simp add: example_fetched_2)
  have 3: "length (fetched example_world_2 ?w') = 3" by (simp add: example_fetched_2)
  from 3 have "fetched example_world_2 ?w' \<noteq> []" by auto
  with b run 5 3 show ?thesis by blast
qed

text \<open>
  Claim C6, the run that exceeds the cap: with \<open>batchSize = 100\<close> and \<open>maxRows = 50\<close> (both
  accepted by the schema) a first batch of 100 rows is processed whole and the summary reports
  100 rows.
\<close>

theorem streamer_total_counterexample:
  "run_total (queryStreamerTool node_rt scripted_port
       \<lparr>port_state = [row_batch ''id'' (replicate 100 (1 :: rat))], trace = []\<rparr>
       \<lparr>sa_sql = ''SELECT id FROM t'', sa_batchSize = 100, sa_maxRows = 50,
        sa_parameters = [], sa_cursorField = None, sa_outputType = Summary,
        sa_aggregations = None\<rparr>) = Some 100"
  by code_simp

text \<open>
  Claim C7, as the code has it. When the list of aggregations names the sum of a field exactly
  once, the reported \<open>sum:field\<close> is the sum of the numeric values of the field over all
  fetched rows, and therefore the same for every run (any batch size, port or statement) that
  fetches the same sequence of rows and names the sum once.
\<close>

theorem streamer_sum:
  assumes "queryStreamerTool rt port w args = Some (Success sm, w')"
      and "sa_aggregations args = Some aggs" and "count_list aggs (f, Sum) = 1"
  shows "sm_aggregations sm (''sum:'' @ f)
           = Some (AccNum (foldl (+) 0 (numeric_values f (concat (fetched w w')))))
         \<and> (\<forall>port2 w2 args2 sm2 w2' aggs2.
               queryStreamerTool rt port2 w2 args2 = Some (Success sm2, w2')
               \<and> sa_aggregations args2 = Some aggs2 \<and> count_list aggs2 (f, Sum) = 1
               \<and> concat (fetched w2 w2') = concat (fetched w w')
               \<longrightarrow> sm_aggregations sm2 (''sum:'' @ f) = sm_aggregations sm (''sum:'' @ f))"
proof (intro conjI allI impI)
  show "sm_aggregations sm (''sum:'' @ f)
           = Some (AccNum (foldl (+) 0 (numeric_values f (concat (fetched w w')))))"
    using assms by (rule streamer_sum_value)
next
  fix port2 w2 args2 sm2 w2' aggs2
  assume h: "queryStreamerTool rt port2 w2 args2 = Some (Success sm2, w2')
               \<and> sa_aggregations args2 = Some aggs2 \<and> count_list aggs2 (f, Sum) = 1
               \<and> concat (fetched w2 w2') = concat (fetched w w')"
  then have "sm_aggregations sm2 (''sum:'' @ f)
           = Some (AccNum (foldl (+) 0 (numeric_values f (concat (fetched w2 w2')))))"
    by (intro streamer_sum_value [of rt port2 w2 args2 sm2 w2' aggs2 f]) simp_all
  also have "\<dots> = Some (AccNum (foldl (+) 0 (numeric_values f (concat (fetched w w')))))"
    using h by simp
  also have "\<dots> = sm_aggregations sm (''sum:'' @ f)"
    using streamer_sum_value [OF assms] by simp
  finally show "sm_aggregations sm2 (''sum:'' @ f) = sm_aggregations sm (''sum:'' @ f)" .
qed

theorem streamer_sum_witness:
  "\<exists>sm w' sm2 w2'.
      queryStreamerTool node_rt scripted_port example_world_2 (example_args 2)
        = Some (Success sm, w')
      \<and> sa_aggregations (example_args 2) = Some [(''amount'', Sum), (''amount'', Avg)]
      \<and> count_list [(''amount'', Sum), (''amount'', Avg)] (''amount'', Sum) = 1
      \<and> sm_aggregations sm ''sum:amount'' = Some (AccNum 105)
      \<and> queryStreamerTool node_rt scripted_port example_world_5 (example_args 5)
          = Some (Success sm2, w2')
      \<and> concat (fetched example_world_5 w2') = concat (fetched example_world_2 w')
      \<and> sm_aggregations sm2 ''sum:amount'' = Some (AccNum 105)"
proof -
  let ?w' = "\<lparr>port_state = [], trace = example_trace_2\<rparr>"
  let ?aggs = "[(''amount'', Sum), (''amount'', Avg)]"
  from example_run_2' obtain sm where
    run: "queryStreamerTool node_rt scripted_port example_world_2 (example_args 2)
          = Some (Success sm, ?w')" by blast
  from example_run_5' obtain sm2 w2' where
    run2: "queryStreamerTool node_rt scripted_port example_world_5 (example_args 5)
          = Some (Success sm2, w2')"
    and f2: "fetched example_world_5 w2'
         = [[[(''id'', JNum 1), (''amount'', JNum 10)], [(''id'', JNum 2), (''amount'', JNum 20)],
             [(''id'', JNum 3), (''amount'', JNum 30)], [(''id'', JNum 4), (''amount'', JNum 40)],
             [(''id'', JNum 5), (''amount'', JNum 5)]], []]" by blast
  have a: "sa_aggregations (example_args 2) = Some ?aggs" by (simp add: example_args_def)
  have a2: "sa_aggregations (example_args 5) = Some ?aggs" by (simp add: example_args_def)
  have d: "count_list ?aggs (''amount'', Sum) = 1" by simp
  have same: "concat (fetched example_world_5 w2') = concat (fetched example_world_2 ?w')"
    by (simp add: f2 example_fetched_2)
  note main = streamer_sum [OF run a d]
  from main have "sm_aggregations sm (''sum:'' @ ''amount'')
           = Some (AccNum (foldl (+) 0 (numeric_values ''amount'' (concat (fetched example_world_2 ?w')))))"
    by blast
  then have v: "sm_aggregations sm ''sum:amount'' = Some (AccNum 105)"
    by (simp add: example_fetched_2 example_values)
  from main run2 a2 d same
  have "sm_aggregations sm2 (''sum:'' @ ''amount'') = sm_aggregations sm (''sum:'' @ ''amount'')"
    by blast
  with v have v2: "sm_aggregations sm2 ''sum:amount'' = Some (AccNum 105)" by simp
  from run a d v run2 same v2 show ?thesis by blast
qed

text \<open>
  Claim C7, the run whose sum is not the sum of the values: the schema accepts a list that
  names the same aggregation twice, and then every value is added once for each entry. The
  rows \<open>amount = 10\<close> and \<open>amount = 20\<close> with \<open>sum\<close> named twice report 60.
\<close>

theorem streamer_sum_counterexample:
  "run_slot ''sum:amount'' (queryStreamerTool node_rt scripted_port
       \<lparr>port_state = [Inr \<lparr>recordset = Some [[(''amount'', JNum 10)], [(''amount'', JNum 20)]]\<rparr>],
        trace = []\<rparr>
       \<lparr>sa_sql = ''SELECT amount FROM t'', sa_batchSize = 100, sa_maxRows = 1000,
        sa_parameters = [], sa_cursorField = None, sa_outputType = Summary,
        sa_aggregations = Some [(''amount'', Sum), (''amount'', Sum)]\<rparr>) = Some (AccNum 60)
   \<and> numeric_values ''amount'' [[(''amount'', JNum (10 :: rat))], [(''amount'', JNum 20)]] = [10, 20]
   \<and> foldl (+) 0 [10, 20 :: rat] = 30"
  by code_simp

text \<open>
  Claim C8, as the code has it. During the run the slot \<open>avg:field\<close> holds the sum of the
  numeric values of the field; the division happens once, after the loop. The divisor is the
  counter \<open>count:field\<close> when a count of the same field was requested and is not zero, and the
  number of processed rows otherwise; a divisor that is not positive leaves the sum.
\<close>

theorem streamer_avg:
  assumes "queryStreamerTool rt port w args = Some (Success sm, w')"
      and "sa_aggregations args = Some aggs" and "distinct aggs" and "(f, Avg) \<in> set aggs"
  shows "(\<exists>s. sm = summary_of args s
             \<and> aggregationResults s (''avg:'' @ f)
                 = Some (AccNum (foldl (+) 0 (numeric_values f (concat (fetched w w'))))))
         \<and> sm_aggregations sm (''avg:'' @ f)
           = (let rws = concat (fetched w w');
                  total = foldl (+) 0 (numeric_values f rws);
                  counted = num_of_nat (length (present_values f rws));
                  divisor = (if (f, Count) \<in> set aggs \<and> counted \<noteq> 0 then counted
                             else num_of_nat (length rws))
              in Some (AccNum (if 0 < divisor then total / divisor else total)))"
proof -
  let ?rws = "concat (fetched w w')"
  have once: "count_list aggs x = 1" if "x \<in> set aggs" for x
    using assms(3) that by (rule distinct_count_once)
  from streamer_state [OF assms(1,2)] obtain s where
    sm: "sm = summary_of args s"
    and t: "totalProcessedRows s = length ?rws"
    and ar: "aggregationResults s =
               aggregate_rows aggs (foldl (init_aggregation rt) Map.empty aggs) ?rws"
    by blast
  have "aggregationResults s (agg_key Avg f)
             = Some (AccNum (foldl (\<lambda>y row. slot_step Avg f row y) 0 ?rws))"
    unfolding ar by (rule slot_once) (simp_all add: once assms(4))
  then have a: "aggregationResults s (agg_key Avg f)
             = Some (AccNum (foldl (+) 0 (numeric_values f ?rws)))"
    by (simp add: avg_steps)
  have c: "aggregationResults s (agg_key Count f)
             = (if (f, Count) \<in> set aggs
                then Some (AccNum (num_of_nat (length (present_values f ?rws)))) else None)"
  proof (cases "(f, Count) \<in> set aggs")
    case True
    have "aggregationResults s (agg_key Count f)
             = Some (AccNum (foldl (\<lambda>y row. slot_step Count f row y) 0 ?rws))"
      unfolding ar by (rule slot_once) (simp_all add: once True)
    with True show ?thesis by (simp add: count_steps count_from_zero)
  next
    case False
    have "aggregationResults s (agg_key Count f) = None"
      unfolding ar using False by (rule slot_absent)
    with False show ?thesis by simp
  qed
  have d: "avg_divisor (length ?rws) (aggregationResults s (agg_key Count f))
             = (if (f, Count) \<in> set aggs \<and> num_of_nat (length (present_values f ?rws)) \<noteq> (0::'a)
                then num_of_nat (length (present_values f ?rws))
                else num_of_nat (length ?rws))"
    unfolding c by (simp add: avg_divisor_def)
  have fin0: "foldl (finalize_aggregation (length ?rws)) (aggregationResults s) aggs (agg_key Avg f)
      = Some (AccNum (if 0 < avg_divisor (length ?rws) (aggregationResults s (agg_key Count f))
                      then foldl (+) 0 (numeric_values f ?rws)
                             / avg_divisor (length ?rws) (aggregationResults s (agg_key Count f))
                      else foldl (+) 0 (numeric_values f ?rws)))"
    by (rule finalize_fold_avg [of aggs f "aggregationResults s" _ "length ?rws",
                                OF once [OF assms(4)] a])
  have fin: "sm_aggregations sm (agg_key Avg f)
      = foldl (finalize_aggregation (length ?rws)) (aggregationResults s) aggs (agg_key Avg f)"
    unfolding sm using assms(2) t by (simp add: summary_of_def)
  have 1: "\<exists>s. sm = summary_of args s
             \<and> aggregationResults s (''avg:'' @ f)
                 = Some (AccNum (foldl (+) 0 (numeric_values f ?rws)))"
    unfolding avg_key using sm a by blast
  have 2: "sm_aggregations sm (''avg:'' @ f)
           = (let rws = ?rws;
                  total = foldl (+) 0 (numeric_values f rws);
                  counted = num_of_nat (length (present_values f rws));
                  divisor = (if (f, Count) \<in> set aggs \<and> counted \<noteq> 0 then counted
                             else num_of_nat (length rws))
              in Some (AccNum (if 0 < divisor then total / divisor else total)))"
    unfolding avg_key fin fin0 d Let_def by (rule refl)
  from 1 2 show ?thesis by (rule conjI)
qed

theorem streamer_avg_witness:
  "\<exists>sm w'.
      queryStreamerTool node_rt scripted_port example_world_2 (example_args 2)
        = Some (Success sm, w')
      \<and> sa_aggregations (example_args 2) = Some [(''amount'', Sum), (''amount'', Avg)]
      \<and> distinct [(''amount'', Sum), (''amount'', Avg)]
      \<and> (''amount'', Avg) \<in> set [(''amount'', Sum), (''amount'', Avg)]
      \<and> sm_aggregations sm ''avg:amount'' = Some (AccNum 21)"
proof -
  let ?w' = "\<lparr>port_state = [], trace = example_trace_2\<rparr>"
  let ?aggs = "[(''amount'', Sum), (''amount'', Avg)]"
  from example_run_2' obtain sm where
    run: "queryStreamerTool node_rt scripted_port example_world_2 (example_args 2)
          = Some (Success sm, ?w')" by blast
  have a: "sa_aggregations (example_args 2) = Some ?aggs" by (simp add: example_args_def)
  have d: "distinct ?aggs" by simp
  have m: "(''amount'', Avg) \<in> set ?aggs" by simp
  have n5: "num_of_nat 5 = (5::rat)" by (simp add: eval_nat_numeral)
  from streamer_avg [OF run a d m]
  have v: "sm_aggregations sm ''avg:amount'' = Some (AccNum 21)"
    by (simp add: example_fetched_2 example_values Let_def n5)
  from run a d m v show ?thesis by blast
qed

text \<open>
  Claim C8, the run whose average is not the mean of the non-null values: the rows
  \<open>amount = 10\<close> and \<open>amount = null\<close> with only \<open>avg\<close> requested report \<open>10 / 2 = 5\<close>, while
  the only non-null value is 10.
\<close>

theorem streamer_avg_counterexample:
  "run_slot ''avg:amount'' (queryStreamerTool node_rt scripted_port
       \<lparr>port_state = [Inr \<lparr>recordset = Some [[(''amount'', JNum 10)], [(''amount'', JNull)]]\<rparr>],
        trace = []\<rparr>
       \<lparr>sa_sql = ''SELECT amount FROM t'', sa_batchSize = 100, sa_maxRows = 1000,
        sa_parameters = [], sa_cursorField = None, sa_outputType = Summary,
        sa_aggregations = Some [(''amount'', Avg)]\<rparr>) = Some (AccNum 5)
   \<and> numeric_values ''amount'' [[(''amount'', JNum (10 :: rat))], [(''amount'', JNull)]] = [10]
   \<and> present_values ''amount'' [[(''amount'', JNum (10 :: rat))], [(''amount'', JNull)]] = [JNum 10]"
  by code_simp


section \<open>Properties of the cursor codec\<close>

subsection \<open>The instance meets the laws of the codec\<close>

lemma of_char_less_256: "(of_char c :: nat) < 256"
  by (cases c) (simp add: of_char_def)

lemma char_eq_code: "c = d \<longleftrightarrow> (of_char c :: nat) = of_char d"
  by (metis char_of_char)

lemma b64_val_char: "n < 64 \<Longrightarrow> b64_val (b64_char n) = Some n"
  by (auto simp: b64_val_def b64_char_def Let_def)

lemma b64_char_not_pad: "n < 64 \<Longrightarrow> b64_char n \<noteq> CHR ''=''"
  by (auto simp: b64_char_def char_eq_code [of _ "CHR ''=''"])

lemma sextets_Cons: "n < 64 \<Longrightarrow> sextets (b64_char n # s) = n # sextets s"
  by (simp add: sextets_def b64_char_not_pad b64_val_char List.map_filter_simps)

lemma sextets_pad: "sextets (CHR ''='' # s) = []"
  by (simp add: sextets_def List.map_filter_simps)

lemma sextets_Nil: "sextets [] = []"
  by (simp add: sextets_def List.map_filter_simps)

lemma div_mod_digit:
  fixes x y n :: nat
  assumes "y < n"
  shows "(x * n + y) div n = x" "(x * n + y) mod n = y"
  using assms by simp_all

lemma sextet_arith:
  fixes a b c :: nat
  assumes "a < 256" "b < 256" "c < 256"
  shows "a div 4 < 64" "a mod 4 * 16 < 64" "a mod 4 * 16 + b div 16 < 64"
    "b mod 16 * 4 < 64" "b mod 16 * 4 + c div 64 < 64" "c mod 64 < 64"
    "b div 16 div 16 = 0" "b div 16 mod 16 = b div 16"
    "c div 64 div 4 = 0" "c div 64 mod 4 = c div 64"
proof -
  show b16: "b div 16 div 16 = 0" using assms(2) by simp
  show c64: "c div 64 div 4 = 0" using assms(3) by simp
  have b16': "b div 16 < 16" using assms(2) by simp
  have c64': "c div 64 < 4" using assms(3) by simp
  have a4: "a mod 4 < 4" and b4: "b mod 16 < 16" by simp_all
  show "b div 16 mod 16 = b div 16" using b16' by simp
  show "c div 64 mod 4 = c div 64" using c64' by simp
  show "a div 4 < 64" using assms(1) by simp
  show "a mod 4 * 16 < 64" using a4 by simp
  show "a mod 4 * 16 + b div 16 < 64" using a4 b16' by simp
  show "b mod 16 * 4 < 64" using b4 by simp
  show "b mod 16 * 4 + c div 64 < 64" using b4 c64' by simp
  show "c mod 64 < 64" by simp
qed

lemma b64_round_trip:
  "\<forall>b \<in> set bs. b < 256 \<Longrightarrow> b64_decode (b64_encode bs) = bs"
proof -
  have "\<forall>b \<in> set bs. b < 256 \<Longrightarrow> from_sextets (sextets (b64_encode bs)) = bs"
  proof (induction bs rule: b64_encode.induct)
    case 1
    show ?case by (simp add: sextets_Nil)
  next
    case (2 a)
    then have a: "a < 256" by simp
    show ?case
      by (simp add: sextets_Cons sextets_pad sextet_arith [OF a a a])
  next
    case (3 a b)
    then have a: "a < 256" "b < 256" by simp_all
    show ?case
      by (simp add: sextets_Cons sextets_pad sextet_arith [OF a a(2)])
  next
    case (4 a b c bs)
    then have a: "a < 256" "b < 256" "c < 256" by simp_all
    have "from_sextets (sextets (b64_encode bs)) = bs" using 4 by simp
    then show ?case by (simp add: sextets_Cons sextet_arith [OF a])
  qed
  then show "\<forall>b \<in> set bs. b < 256 \<Longrightarrow> b64_decode (b64_encode bs) = bs"
    by (simp add: b64_decode_def)
qed

lemma byte_div_64: "(n::nat) < 256 \<Longrightarrow> n div 64 < 4"
  by simp

lemma utf8_encode_Cons:
  "utf8_encode (c # s) =
     (if (of_char c :: nat) < 128 then [of_char c]
      else [192 + of_char c div 64, 128 + of_char c mod 64]) @ utf8_encode s"
  by (simp add: utf8_encode_def Let_def)

lemma utf8_encode_bytes: "\<forall>b \<in> set (utf8_encode s). b < 256"
proof (induction s)
  case Nil
  show ?case by (simp add: utf8_encode_def)
next
  case (Cons c s)
  have "(of_char c :: nat) < 256" by (rule of_char_less_256)
  then have "(of_char c :: nat) div 64 < 4" by (rule byte_div_64)
  then have "192 + (of_char c :: nat) div 64 < 256" by simp
  moreover have "128 + (of_char c :: nat) mod 64 < 256" by simp
  ultimately show ?case using Cons \<open>(of_char c :: nat) < 256\<close>
    by (simp add: utf8_encode_Cons)
qed

lemma utf8_round_trip: "utf8_decode (utf8_encode s) = s"
proof (induction s)
  case Nil
  show ?case by (simp add: utf8_encode_def)
next
  case (Cons c s)
  let ?n = "of_char c :: nat"
  have lt: "?n < 256" by (rule of_char_less_256)
  show ?case
  proof (cases "?n < 128")
    case True
    show ?thesis
    proof (cases "utf8_encode s")
      case Nil
      with Cons have "s = []" by simp
      with True show ?thesis by (simp add: utf8_encode_Cons utf8_encode_def)
    next
      case (Cons b bs)
      with True Cons.IH show ?thesis by (simp add: utf8_encode_Cons)
    qed
  next
    case False
    have "?n div 64 < 4" using lt by (rule byte_div_64)
    moreover have "2 \<le> ?n div 64" using False by simp
    ultimately have d: "?n div 64 = 2 \<or> ?n div 64 = 3" by linarith
    have m: "?n mod 64 < 64" by simp
    have v: "(?n div 64) * 64 + ?n mod 64 = ?n" by simp
    have "utf8_decode ((192 + ?n div 64) # (128 + ?n mod 64) # utf8_encode s)
            = char_of ((?n div 64) * 64 + ?n mod 64) # utf8_decode (utf8_encode s)"
      using d m by auto
    with False Cons.IH show ?thesis by (simp add: utf8_encode_Cons v del: utf8_decode.simps)
  qed
qed

lemma node_rt_base64: "base64_to_utf8 node_rt (utf8_to_base64 node_rt s) = s"
  by (simp add: node_rt_def b64_round_trip utf8_encode_bytes utf8_round_trip)

lemma hex_val_char: "d < 16 \<Longrightarrow> hex_val (hex_char d) = Some d"
  by (auto simp: hex_val_def hex_char_def Let_def)

lemma hex4_escape: "n < 256 \<Longrightarrow> hex4 CHR ''0'' CHR ''0'' (hex_char (n div 16)) (hex_char (n mod 16)) = Some n"
proof -
  assume "n < 256"
  then have "n div 16 < 16" by simp
  then have "hex_val (hex_char (n div 16)) = Some (n div 16)" by (rule hex_val_char)
  moreover have "hex_val (hex_char (n mod 16)) = Some (n mod 16)" by (rule hex_val_char) simp
  moreover have "hex_val CHR ''0'' = Some 0" by (simp add: hex_val_def)
  ultimately show ?thesis by (simp add: hex4_def)
qed

lemma parse_string_body_quote: "parse_string_body (CHR 0x22 # rest) = Some ([], rest)"
  by (cases rest) simp_all

lemma parse_string_body_plain:
  assumes "c \<noteq> CHR 0x22" "c \<noteq> CHR 0x5C" "\<not> (of_char c :: nat) < 32" "zs \<noteq> []"
  shows "parse_string_body (c # zs) = map_option (\<lambda>(t, r). (c # t, r)) (parse_string_body zs)"
  using assms by (cases zs) simp_all

lemma parse_string_body_short:
  assumes "unescape e = Some x" "e \<noteq> CHR ''u''"
  shows "parse_string_body (CHR 0x5C # e # zs) = map_option (\<lambda>(t, r). (x # t, r)) (parse_string_body zs)"
  using assms by simp

lemma parse_string_body_hex:
  assumes "hex4 h1 h2 h3 h4 = Some n" "n < 256"
  shows "parse_string_body (CHR 0x5C # CHR ''u'' # h1 # h2 # h3 # h4 # zs)
           = map_option (\<lambda>(t, r). (char_of n # t, r)) (parse_string_body zs)"
  using assms by simp

lemma parse_escape:
  assumes "zs \<noteq> []"
  shows "parse_string_body (json_escape c @ zs)
           = map_option (\<lambda>(t, r). (c # t, r)) (parse_string_body zs)"
proof -
  let ?n = "of_char c :: nat"
  have c: "c = char_of ?n" by simp
  consider "?n = 34" | "?n = 92" | "?n = 8" | "?n = 12" | "?n = 10" | "?n = 13" | "?n = 9"
    | "?n < 32" "?n \<notin> {8, 12, 10, 13, 9}" | "\<not> ?n < 32" "?n \<noteq> 34" "?n \<noteq> 92"
    by auto
  then show ?thesis
  proof cases
    case 1
    then have "c = CHR 0x22" by (simp add: char_eq_code [of c "CHR 0x22"])
    then show ?thesis by (simp add: json_escape_def unescape_def)
  next
    case 2
    then have "c = CHR 0x5C" by (simp add: char_eq_code [of c "CHR 0x5C"])
    then show ?thesis by (simp add: json_escape_def unescape_def)
  next
    case 3
    then have "c = CHR 0x08" by (simp add: char_eq_code [of c "CHR 0x08"])
    then show ?thesis by (simp add: json_escape_def unescape_def)
  next
    case 4
    then have "c = CHR 0x0C" by (simp add: char_eq_code [of c "CHR 0x0C"])
    then show ?thesis by (simp add: json_escape_def unescape_def)
  next
    case 5
    then have "c = CHR 0x0A" by (simp add: char_eq_code [of c "CHR 0x0A"])
    then show ?thesis by (simp add: json_escape_def unescape_def)
  next
    case 6
    then have "c = CHR 0x0D" by (simp add: char_eq_code [of c "CHR 0x0D"])
    then show ?thesis by (simp add: json_escape_def unescape_def)
  next
    case 7
    then have "c = CHR 0x09" by (simp add: char_eq_code [of c "CHR 0x09"])
    then show ?thesis by (simp add: json_escape_def unescape_def)
  next
    case 8
    then have e: "json_escape c
          = [CHR 0x5C, CHR ''u'', CHR ''0'', CHR ''0'', hex_char (?n div 16), hex_char (?n mod 16)]"
      by (simp add: json_escape_def Let_def)
    have h: "hex4 CHR ''0'' CHR ''0'' (hex_char (?n div 16)) (hex_char (?n mod 16)) = Some ?n"
      by (rule hex4_escape) (rule of_char_less_256)
    show ?thesis
      unfolding e using parse_string_body_hex [OF h of_char_less_256, of zs] by simp
  next
    case 9
    then have e: "json_escape c = [c]" by (simp add: json_escape_def Let_def)
    have "c \<noteq> CHR 0x22" "c \<noteq> CHR 0x5C"
      using 9 by (simp_all add: char_eq_code [of c])
    then show ?thesis
      unfolding e using parse_string_body_plain [of c zs] 9 assms by simp
  qed
qed

lemma parse_quoted:
  "parse_string_body (concat (map json_escape s) @ CHR 0x22 # rest) = Some (s, rest)"
proof (induction s)
  case Nil
  show ?case by (simp add: parse_string_body_quote)
next
  case (Cons c s)
  have "parse_string_body (json_escape c @ (concat (map json_escape s) @ CHR 0x22 # rest))
          = map_option (\<lambda>(t, r). (c # t, r))
              (parse_string_body (concat (map json_escape s) @ CHR 0x22 # rest))"
    by (rule parse_escape) simp
  with Cons show ?case by simp
qed

lemma digit_char:
  assumes "d < 10"
  shows "is_digit (char_of (48 + d))" "digit_val (char_of (48 + d)) = d"
    "char_of (48 + d) \<noteq> CHR ''-''" "d \<noteq> 0 \<Longrightarrow> char_of (48 + d) \<noteq> CHR ''0''"
  using assms by (simp_all add: is_digit_def digit_val_def char_eq_code [of "char_of (48 + d)"])

lemma digits_of_nonempty: "digits_of n \<noteq> []"
  by (subst digits_of.simps) simp

lemma digits_of_digits: "c \<in> set (digits_of n) \<Longrightarrow> is_digit c"
proof (induction n rule: digits_of.induct)
  case (1 n)
  show ?case
  proof (cases "n < 10")
    case True
    with 1(2) show ?thesis by (subst (asm) digits_of.simps) (simp add: digit_char)
  next
    case False
    have "n mod 10 < 10" by simp
    then have "is_digit (char_of (48 + n mod 10))" by (rule digit_char)
    with False 1 show ?thesis by (subst (asm) (2) digits_of.simps) auto
  qed
qed

lemma digits_of_value: "foldl (\<lambda>acc d. 10 * acc + digit_val d) 0 (digits_of n) = n"
proof (induction n rule: digits_of.induct)
  case (1 n)
  show ?case
  proof (cases "n < 10")
    case True
    then show ?thesis by (subst digits_of.simps) (simp add: digit_char)
  next
    case False
    have "n mod 10 < 10" by simp
    then have "digit_val (char_of (48 + n mod 10)) = n mod 10" by (rule digit_char)
    with False 1 show ?thesis by (subst digits_of.simps) simp
  qed
qed

lemma digits_of_hd: "0 < n \<Longrightarrow> hd (digits_of n) \<noteq> CHR ''0''"
proof (induction n rule: digits_of.induct)
  case (1 n)
  show ?case
  proof (cases "n < 10")
    case True
    with 1(2) show ?thesis by (subst digits_of.simps) (simp add: digit_char)
  next
    case False
    then have "0 < n div 10" by simp
    with False 1 have "hd (digits_of (n div 10)) \<noteq> CHR ''0''" by simp
    with False show ?thesis
      by (subst digits_of.simps) (simp add: digits_of_nonempty)
  qed
qed

lemma digits_of_hd_minus: "hd (digits_of n) \<noteq> CHR ''-''"
proof -
  have "hd (digits_of n) \<in> set (digits_of n)" by (simp add: digits_of_nonempty)
  then have "is_digit (hd (digits_of n))" by (rule digits_of_digits)
  then show ?thesis by (auto simp: is_digit_def)
qed

lemma parse_nat_digits:
  assumes "r = [] \<or> \<not> is_digit (hd r)"
  shows "parse_nat (digits_of n @ r) = Some (n, r)"
proof (cases "n = 0")
  case True
  have "digits_of 0 = ''0''"
    by (subst digits_of.simps) (simp add: char_eq_code [of "char_of 48"])
  with True show ?thesis by simp
next
  case False
  obtain c cs where d: "digits_of n = c # cs"
    using digits_of_nonempty [of n] by (cases "digits_of n") auto
  from False digits_of_hd [of n] d have c0: "c \<noteq> CHR ''0''" by simp
  from d digits_of_digits [of c n] have cd: "is_digit c" by simp
  have all: "\<And>x. x \<in> set cs \<Longrightarrow> is_digit x" using d digits_of_digits [of _ n] by simp
  from assms have r: "takeWhile is_digit r = []" "dropWhile is_digit r = r"
    by (cases r; simp)+
  have t: "takeWhile is_digit (cs @ r) = cs" using all r by (simp add: takeWhile_append2)
  have dr: "dropWhile is_digit (cs @ r) = r" using all r by (simp add: dropWhile_append2)
  have "foldl (\<lambda>acc d. 10 * acc + digit_val d) 0 (c # cs) = n"
    using digits_of_value [of n] d by simp
  with c0 cd t dr show ?thesis unfolding d by simp
qed

lemma parse_number_int:
  assumes "r = c # r'" "c = CHR '','' \<or> c = CHR ''}''"
  shows "parse_number (show_int n @ r) = Some (of_int n, r)"
proof -
  from assms have nd: "r = [] \<or> \<not> is_digit (hd r)" by (auto simp: is_digit_def)
  from assms have fr: "parse_fraction r = Some (0, r)" "parse_exponent r = Some (1, r)"
    by (auto simp: parse_fraction_def parse_exponent_def)
  show ?thesis
  proof (cases "n < 0")
    case True
    have "parse_nat (digits_of (nat (- n)) @ r) = Some (nat (- n), r)"
      using nd by (rule parse_nat_digits)
    with True fr show ?thesis
      by (simp add: parse_number_def show_int_def)
  next
    case False
    obtain d ds where d: "digits_of (nat n) = d # ds"
      using digits_of_nonempty [of "nat n"] by (cases "digits_of (nat n)") auto
    from digits_of_hd_minus [of "nat n"] d have dm: "d \<noteq> CHR ''-''" by simp
    have "parse_nat ((d # ds) @ r) = Some (nat n, r)"
      using parse_nat_digits [OF nd, of "nat n"] d by simp
    with False dm fr show ?thesis
      by (simp add: parse_number_def show_int_def d del: parse_nat.simps)
  qed
qed

lemma skip_ws_Cons: "\<not> is_json_ws c \<Longrightarrow> skip_ws (c # cs) = c # cs"
  by (simp add: skip_ws_def)

lemma parse_value_string:
  "parse_value (Suc k) (CHR 0x22 # cs) = map_option (\<lambda>(x, r). (JStr x, r)) (parse_string_body cs)"
  by (simp add: skip_ws_def is_json_ws_def)

lemma parse_value_number:
  assumes "is_digit c \<or> c = CHR ''-''"
  shows "parse_value (Suc k) (c # cs)
           = map_option (\<lambda>(n, r). (JNum n, r)) (parse_number (c # cs))"
proof -
  from assms have "\<not> is_json_ws c" "c \<noteq> CHR ''n''" "c \<noteq> CHR ''t''" "c \<noteq> CHR ''f''"
    "c \<noteq> CHR 0x22" "c \<noteq> CHR ''[''" "c \<noteq> CHR ''{''"
    by (auto simp: is_digit_def is_json_ws_def)
  then show ?thesis by (simp add: skip_ws_Cons)
qed

lemma show_int_hd: "\<exists>c cs. show_int n = c # cs \<and> (is_digit c \<or> c = CHR ''-'')"
proof (cases "n < 0")
  case True
  then show ?thesis by (simp add: show_int_def)
next
  case False
  obtain d ds where d: "digits_of (nat n) = d # ds"
    using digits_of_nonempty [of "nat n"] by (cases "digits_of (nat n)") auto
  with digits_of_digits [of d "nat n"] have "is_digit d" by simp
  with False d show ?thesis by (simp add: show_int_def)
qed

lemma decimal_places_integer:
  "decimal_places n x = Some k \<Longrightarrow> x * 10 ^ k = of_int \<lfloor>x * 10 ^ k\<rfloor>"
proof (induction n arbitrary: x k)
  case 0
  then show ?case by simp
next
  case (Suc n)
  show ?case
  proof (cases "x = of_int \<lfloor>x\<rfloor>")
    case True
    with Suc.prems have "k = 0" by simp
    with True show ?thesis by simp
  next
    case False
    with Suc.prems obtain k' where k': "decimal_places n (x * 10) = Some k'" "k = Suc k'"
      by auto
    from Suc.IH [OF k'(1)] show ?thesis
      unfolding k'(2) by (simp add: mult.assoc)
  qed
qed

lemma decimal_places_pos:
  "decimal_places n x = Some k \<Longrightarrow> x \<noteq> of_int \<lfloor>x\<rfloor> \<Longrightarrow> 0 < k"
  by (cases n) auto

lemma digits_of_length: "0 < k \<Longrightarrow> m < 10 ^ k \<Longrightarrow> length (digits_of m) \<le> k"
proof (induction m arbitrary: k rule: digits_of.induct)
  case (1 n)
  show ?case
  proof (cases "n < 10")
    case True
    with 1(2) show ?thesis by (subst digits_of.simps) simp
  next
    case False
    obtain j where j: "k = Suc j" using 1(2) by (cases k) auto
    have "0 < j"
    proof (rule ccontr)
      assume "\<not> 0 < j"
      with j 1(3) False show False by simp
    qed
    moreover from 1(3) j have "n div 10 < 10 ^ j" by (simp add: less_mult_imp_div_less)
    ultimately have "length (digits_of (n div 10)) \<le> j" using 1(1) False by simp
    with False j show ?thesis by (subst digits_of.simps) simp
  qed
qed

lemma zero_digit: "is_digit CHR ''0''" "digit_val CHR ''0'' = 0"
  by (simp_all add: is_digit_def digit_val_def)

lemma digits_value_append:
  "digits_value (replicate z CHR ''0'' @ ds) = digits_value ds"
proof -
  have "foldl (\<lambda>acc d. 10 * acc + digit_val d) 0 (replicate z CHR ''0'') = 0"
    by (induction z) (simp_all add: zero_digit)
  then show ?thesis by (simp add: digits_value_def)
qed

lemma show_fraction_props:
  assumes "0 < k" "nat \<lfloor>x * 10 ^ k\<rfloor> < 10 ^ k"
  shows "length (show_fraction x k) = k"
    "\<And>c. c \<in> set (show_fraction x k) \<Longrightarrow> is_digit c"
    "digits_value (show_fraction x k) = nat \<lfloor>x * 10 ^ k\<rfloor>"
proof -
  let ?ds = "digits_of (nat \<lfloor>x * 10 ^ k\<rfloor>)"
  have l: "length ?ds \<le> k" using assms by (rule digits_of_length)
  then show "length (show_fraction x k) = k" by (simp add: show_fraction_def Let_def)
  show "is_digit c" if "c \<in> set (show_fraction x k)" for c
    using that digits_of_digits [of c] by (auto simp: show_fraction_def Let_def zero_digit)
  show "digits_value (show_fraction x k) = nat \<lfloor>x * 10 ^ k\<rfloor>"
    using digits_of_value [of "nat \<lfloor>x * 10 ^ k\<rfloor>"]
    by (simp add: show_fraction_def Let_def digits_value_append) (simp add: digits_value_def)
qed

lemma parse_fraction_digits:
  assumes "F \<noteq> []" "\<And>c. c \<in> set F \<Longrightarrow> is_digit c" "r = [] \<or> \<not> is_digit (hd r)"
  shows "parse_fraction (''.'' @ F @ r) = Some (of_nat (digits_value F) / 10 ^ length F, r)"
proof -
  from assms(3) have r: "takeWhile is_digit r = []" "dropWhile is_digit r = r"
    by (cases r; simp)+
  have t: "takeWhile is_digit (F @ r) = F" using assms(2) r by (simp add: takeWhile_append2)
  have d: "dropWhile is_digit (F @ r) = r" using assms(2) r by (simp add: dropWhile_append2)
  show ?thesis using assms(1) by (simp add: parse_fraction_def t d)
qed

lemma digits_not_minus: "\<not> startsWith (digits_of n @ xs) ''-''"
proof -
  obtain d ds where d: "digits_of n = d # ds"
    using digits_of_nonempty [of n] by (cases "digits_of n") auto
  from digits_of_hd_minus [of n] d have "d \<noteq> CHR ''-''" by simp
  then show ?thesis by (simp add: d)
qed

lemma parse_number_decimal:
  assumes q: "q \<noteq> of_int \<lfloor>q\<rfloor>" and dp: "decimal_places n \<bar>q\<bar> = Some k"
      and r: "r = c # r'" "c = CHR '','' \<or> c = CHR ''}''"
  shows "parse_number (((if q < 0 then ''-'' else []) @ digits_of (nat \<lfloor>\<bar>q\<bar>\<rfloor>) @ ''.''
            @ show_fraction (\<bar>q\<bar> - of_int \<lfloor>\<bar>q\<bar>\<rfloor>) k) @ r) = Some (q, r)"
proof -
  let ?a = "\<bar>q\<bar>"
  let ?i = "\<lfloor>?a\<rfloor>"
  let ?fr = "?a - of_int ?i"
  let ?F = "show_fraction ?fr k"
  from q have qa: "?a \<noteq> of_int \<lfloor>?a\<rfloor>"
    by (metis abs_of_nonneg abs_of_neg floor_of_int of_int_minus linorder_not_less minus_minus)
  have k: "0 < k" using dp qa by (rule decimal_places_pos)
  have int: "?a * 10 ^ k = of_int \<lfloor>?a * 10 ^ k\<rfloor>" using dp by (rule decimal_places_integer)
  have fr0: "0 \<le> ?fr" "?fr < 1" by linarith+
  have frk: "?fr * 10 ^ k = of_int (\<lfloor>?a * 10 ^ k\<rfloor> - ?i * 10 ^ k)"
    using int by (simp add: algebra_simps)
  have lt: "?fr * 10 ^ k < 10 ^ k" using fr0 by simp
  have ge: "0 \<le> ?fr * 10 ^ k" using fr0 by simp
  have fl: "of_int \<lfloor>?fr * 10 ^ k\<rfloor> = ?fr * 10 ^ k" unfolding frk by simp
  have m: "(of_nat (nat \<lfloor>?fr * 10 ^ k\<rfloor>) :: rat) = ?fr * 10 ^ k"
    using ge fl by (simp add: of_nat_nat)
  have "\<lfloor>?fr * 10 ^ k\<rfloor> < 10 ^ k" using lt by (simp add: floor_less_iff)
  moreover have "0 \<le> \<lfloor>?fr * 10 ^ k\<rfloor>" using ge by simp
  ultimately have mlt: "nat \<lfloor>?fr * 10 ^ k\<rfloor> < 10 ^ k" by (simp add: nat_less_iff)
  note F = show_fraction_props [OF k mlt]
  from r have nd: "r = [] \<or> \<not> is_digit (hd r)" by (auto simp: is_digit_def)
  have Fne: "?F \<noteq> []" using F(1) k by auto
  have pf: "parse_fraction (''.'' @ ?F @ r) = Some (?fr, r)"
    using parse_fraction_digits [OF Fne F(2) nd] F(1) F(3) m by simp
  have pe: "parse_exponent r = Some (1, r)" using r by (auto simp: parse_exponent_def)
  have pn: "parse_nat (digits_of (nat ?i) @ (''.'' @ ?F @ r)) = Some (nat ?i, ''.'' @ ?F @ r)"
    by (rule parse_nat_digits) (simp add: is_digit_def)
  have i: "(of_nat (nat ?i) :: rat) = of_int ?i" by (simp add: of_nat_nat)
  show ?thesis
  proof (cases "q < 0")
    case True
    then have "- ?a = q" by simp
    with True pn pf pe i show ?thesis
      by (simp add: parse_number_def del: parse_nat.simps)
  next
    case False
    then have "?a = q" by simp
    with False pn pf pe i show ?thesis
      by (simp add: parse_number_def digits_not_minus del: parse_nat.simps)
  qed
qed

lemma parse_number_show:
  assumes "decimal q" and r: "r = c # r'" "c = CHR '','' \<or> c = CHR ''}''"
  shows "parse_number (show_num q @ r) = Some (q, r)"
proof (cases "q = of_int \<lfloor>q\<rfloor>")
  case True
  then have "show_num q = show_int \<lfloor>q\<rfloor>" by (simp add: show_num_def)
  with parse_number_int [OF r, of "\<lfloor>q\<rfloor>"] True show ?thesis by simp
next
  case False
  from assms(1) obtain k where
    k: "decimal_places (nat (snd (quotient_of q))) \<bar>q\<bar> = Some k"
    by (auto simp: decimal_def)
  with False have "show_num q = (if q < 0 then ''-'' else []) @ digits_of (nat \<lfloor>\<bar>q\<bar>\<rfloor>) @ ''.''
            @ show_fraction (\<bar>q\<bar> - of_int \<lfloor>\<bar>q\<bar>\<rfloor>) k"
    by (simp add: show_num_def)
  with parse_number_decimal [OF False k r] show ?thesis by simp
qed

lemma show_num_hd:
  "decimal q \<Longrightarrow> \<exists>c cs. show_num q = c # cs \<and> (is_digit c \<or> c = CHR ''-'')"
proof (cases "q = of_int \<lfloor>q\<rfloor>")
  case True
  then have "show_num q = show_int \<lfloor>q\<rfloor>" by (simp add: show_num_def)
  with show_int_hd [of "\<lfloor>q\<rfloor>"] show ?thesis by simp
next
  case False
  assume "decimal q"
  then obtain k where
    k: "decimal_places (nat (snd (quotient_of q))) \<bar>q\<bar> = Some k"
    by (auto simp: decimal_def)
  obtain d ds where d: "digits_of (nat \<lfloor>\<bar>q\<bar>\<rfloor>) = d # ds"
    using digits_of_nonempty [of "nat \<lfloor>\<bar>q\<bar>\<rfloor>"] by (cases "digits_of (nat \<lfloor>\<bar>q\<bar>\<rfloor>)") auto
  with digits_of_digits [of d "nat \<lfloor>\<bar>q\<bar>\<rfloor>"] have "is_digit d" by simp
  with False k d show ?thesis by (simp add: show_num_def)
qed

lemma parse_scalar:
  assumes v: "serializable decimal v" and r: "r = c # r'" "c = CHR '','' \<or> c = CHR ''}''"
  shows "\<exists>t. json_value v = Some t \<and> parse_value (Suc k) (t @ r) = Some (v, r)"
proof (cases v)
  case JNull
  then show ?thesis by (simp add: skip_ws_def is_json_ws_def)
next
  case (JBool b)
  then show ?thesis by (cases b) (simp_all add: skip_ws_def is_json_ws_def)
next
  case (JNum q)
  with v have q: "decimal q" by (simp add: serializable_def)
  obtain d ds where d: "show_num q = d # ds" "is_digit d \<or> d = CHR ''-''"
    using show_num_hd [OF q] by blast
  have "parse_value (Suc k) ((d # ds) @ r)
          = map_option (\<lambda>(n, r). (JNum n, r)) (parse_number ((d # ds) @ r))"
    using parse_value_number [OF d(2), of k "ds @ r"] by simp
  also have "parse_number ((d # ds) @ r) = Some (q, r)"
    using parse_number_show [OF q r] d(1) by simp
  finally have "parse_value (Suc k) (show_num q @ r) = Some (JNum q, r)"
    by (simp add: d(1))
  with JNum show ?thesis by simp
next
  case (JStr s)
  have "parse_value (Suc k) (json_quote s @ r) = Some (JStr s, r)"
    by (simp add: json_quote_def parse_value_string parse_quoted del: parse_value.simps)
  with JStr show ?thesis by simp
qed (use v in \<open>simp_all add: serializable_def\<close>)

lemma parse_member:
  assumes pv: "parse_value k (tv @ r) = Some (v, r)"
      and r: "r = c # r'" "c = CHR '','' \<or> c = CHR ''}''"
  shows "parse_members (Suc k) (json_quote key @ '':'' @ tv @ r)
           = (if c = CHR '','' then map_option (\<lambda>(kvs, r''). ((key, v) # kvs, r'')) (parse_members k r')
              else Some ([(key, v)], r'))"
proof -
  have q: "json_quote key @ '':'' @ tv @ r
             = CHR 0x22 # (concat (map json_escape key) @ CHR 0x22 # (CHR '':'' # tv @ r))"
    by (simp add: json_quote_def)
  have ws: "\<not> is_json_ws (CHR 0x22)" "\<not> is_json_ws (CHR '':'')" "\<not> is_json_ws c"
    using r(2) by (auto simp: is_json_ws_def)
  show ?thesis
    unfolding q using pv r
    by (auto simp: skip_ws_Cons ws parse_quoted simp del: parse_value.simps parse_string_body.simps)
qed

lemma json_value_record:
  assumes "json_value v = Some tv"
  shows "json_value (cursor_record f v op)
           = Some (''{'' @ (json_quote ''field'' @ '':'' @ json_quote f @
                     '','' @ (json_quote ''value'' @ '':'' @ tv @
                     '','' @ (json_quote ''operator'' @ '':'' @ json_quote op @ ''}''))))"
  using assms by (simp add: cursor_record_def)

lemma parse_value_object:
  assumes "parse_members k (CHR 0x22 # cs) = Some (kvs, r)"
  shows "parse_value (Suc k) (CHR ''{'' # CHR 0x22 # cs)
           = Some (JObj (foldl (\<lambda>ob (k, v). set_prop ob k v) [] kvs), r)"
  using assms by (simp add: skip_ws_def is_json_ws_def)

lemma parse_record:
  assumes v: "serializable decimal v"
  shows "\<exists>t. json_value (cursor_record f v op) = Some t
             \<and> parse_value (Suc (Suc (Suc (Suc (Suc k))))) t = Some (cursor_record f v op, [])"
proof -
  let ?r3 = "''}''"
  let ?m3 = "json_quote ''operator'' @ '':'' @ json_quote op @ ?r3"
  let ?r2 = "'','' @ ?m3"
  obtain tv where tv: "json_value v = Some tv"
    and pv: "parse_value (Suc (Suc k)) (tv @ ?r2) = Some (v, ?r2)"
    using parse_scalar [OF v, of ?r2 "CHR '',''" ?m3 "Suc k"] by auto
  let ?m2 = "json_quote ''value'' @ '':'' @ tv @ ?r2"
  let ?r1 = "'','' @ ?m2"
  let ?m1 = "json_quote ''field'' @ '':'' @ json_quote f @ ?r1"
  have s: "serializable decimal (JStr x)" for x by (simp add: serializable_def)
  have pf: "parse_value (Suc (Suc (Suc k))) (json_quote f @ ?r1) = Some (JStr f, ?r1)"
    using parse_scalar [OF s, of ?r1 "CHR '',''" ?m2 f "Suc (Suc k)"] by auto
  have po: "parse_value (Suc k) (json_quote op @ ?r3) = Some (JStr op, ?r3)"
    using parse_scalar [OF s, of ?r3 "CHR ''}''" "[]" op k] by auto
  have 3: "parse_members (Suc (Suc k)) ?m3 = Some ([(''operator'', JStr op)], [])"
    using parse_member [OF po, of "CHR ''}''" "[]" "''operator''"] by simp
  have 2: "parse_members (Suc (Suc (Suc k))) ?m2
             = Some ([(''value'', v), (''operator'', JStr op)], [])"
    using parse_member [OF pv, of "CHR '',''" ?m3 "''value''"] 3 by simp
  have 1: "parse_members (Suc (Suc (Suc (Suc k)))) ?m1
             = Some ([(''field'', JStr f), (''value'', v), (''operator'', JStr op)], [])"
    using parse_member [OF pf, of "CHR '',''" ?m2 "''field''"] 2 by simp
  obtain cs where m1: "?m1 = CHR 0x22 # cs" by (simp add: json_quote_def)
  have "parse_value (Suc (Suc (Suc (Suc (Suc k))))) (CHR ''{'' # ?m1)
          = Some (JObj (foldl (\<lambda>ob (k, v). set_prop ob k v) []
                          [(''field'', JStr f), (''value'', v), (''operator'', JStr op)]), [])"
    using parse_value_object [of "Suc (Suc (Suc (Suc k)))" cs] 1 unfolding m1 by simp
  then have "parse_value (Suc (Suc (Suc (Suc (Suc k))))) (''{'' @ ?m1)
          = Some (cursor_record f v op, [])"
    by (simp add: cursor_record_def)
  moreover have "json_value (cursor_record f v op) = Some (''{'' @ ?m1)"
    using json_value_record [OF tv] by simp
  ultimately show ?thesis by blast
qed

lemma json_round_trip:
  assumes "serializable decimal v"
  shows "json_parse (json_stringify (cursor_record f v op)) = Some (cursor_record f v op)"
proof -
  obtain tv where tv: "json_value v = Some tv"
    using parse_scalar [OF assms, of "'',''" "CHR '',''" "[]" 0] by auto
  obtain t where t: "json_value (cursor_record f v op) = Some t" and len: "2 \<le> length t"
    using json_value_record [OF tv, of f op] by (simp add: json_quote_def)
  from len have fuel: "2 * length t + 2 = Suc (Suc (Suc (Suc (Suc (2 * length t - 3)))))"
    by arith
  from parse_record [OF assms, of f op "2 * length t - 3"] t
  have "parse_value (2 * length t + 2) t = Some (cursor_record f v op, [])"
    unfolding fuel by simp
  then show ?thesis
    by (simp add: json_parse_def json_stringify_def t skip_ws_def)
qed

lemma node_rt_codec_laws: "codec_laws node_rt decimal"
proof -
  have "json_parse [] = None"
    by (simp add: json_parse_def skip_ws_def parse_number_def)
  moreover have "b64_encode (utf8_encode []) = []" by (simp add: utf8_encode_def)
  ultimately show ?thesis
    by (simp add: codec_laws_def node_rt_def b64_round_trip utf8_encode_bytes utf8_round_trip
                  json_round_trip)
qed

subsection \<open>The round trip\<close>

lemma codec_token_nonempty:
  assumes "codec_laws rt num_ok" "serializable num_ok v"
  shows "encode_cursor rt f v op \<noteq> []"
proof
  let ?j = "JSON_stringify rt (cursor_record f v op)"
  assume "encode_cursor rt f v op = []"
  then have e: "utf8_to_base64 rt ?j = []" by (simp add: encode_cursor_def)
  from assms(1) have "base64_to_utf8 rt (utf8_to_base64 rt ?j) = ?j"
    by (simp add: codec_laws_def)
  with e have 1: "base64_to_utf8 rt [] = ?j" by simp
  from assms(1) have "base64_to_utf8 rt (utf8_to_base64 rt []) = []"
    unfolding codec_laws_def by blast
  moreover from assms(1) have "utf8_to_base64 rt [] = []" by (simp add: codec_laws_def)
  ultimately have "base64_to_utf8 rt [] = []" by simp
  with 1 have "?j = []" by simp
  moreover from assms have "JSON_parse rt ?j = Some (cursor_record f v op)"
    by (simp add: codec_laws_def)
  moreover from assms(1) have "JSON_parse rt [] = None" by (simp add: codec_laws_def)
  ultimately show False by simp
qed

lemma decode_encode:
  assumes "codec_laws rt num_ok" "serializable num_ok v"
  shows "decodeCursor rt (Some (encode_cursor rt f v op)) = cursor_record f v op"
proof -
  let ?j = "JSON_stringify rt (cursor_record f v op)"
  have ne: "encode_cursor rt f v op \<noteq> []" using assms by (rule codec_token_nonempty)
  from assms(1) have b: "base64_to_utf8 rt (encode_cursor rt f v op) = ?j"
    by (simp add: codec_laws_def encode_cursor_def)
  from assms have j: "JSON_parse rt ?j = Some (cursor_record f v op)"
    by (simp add: codec_laws_def)
  show ?thesis
    using ne by (simp add: decodeCursor_def str_truthy_def b j)
qed

text \<open>
  Claim C2. For a runtime whose \<^verbatim>\<open>Buffer\<close> and \<^verbatim>\<open>JSON\<close> meet \<open>codec_laws\<close>, every field name
  \<open>f\<close>, every serializable scalar \<open>v\<close> and every operator \<open>op\<close> (so each of \<^verbatim>\<open>>\<close>, \<^verbatim>\<open>>=\<close>, \<^verbatim>\<open><\<close>
  and \<^verbatim>\<open><=\<close>): decoding the token that encodes \<open>(f, v, op)\<close> yields the record
  \<^verbatim>\<open>{field: f, value: v, operator: op}\<close>. The two encoders of the code fix the operator:
  for a row with value \<open>v\<close> under a non-empty field \<open>f\<close>, the token of \<^verbatim>\<open>generateNextCursor\<close>
  decodes to \<open>(f, v, >)\<close> and the token of \<^verbatim>\<open>generatePrevCursor\<close> to \<open>(f, v, <=)\<close>.
\<close>

theorem cursor_round_trip:
  assumes "codec_laws rt num_ok" and "serializable num_ok v"
  shows "decodeCursor rt (Some (encode_cursor rt f v op)) = cursor_record f v op
         \<and> (f \<noteq> [] \<and> get_prop row f = v \<longrightarrow>
               decodeCursor rt (generateNextCursor rt (Some row) f) = cursor_record f v ''>''
               \<and> decodeCursor rt (generatePrevCursor rt (Some row) f) = cursor_record f v ''<='')"
proof -
  have d: "decodeCursor rt (Some (encode_cursor rt f v x)) = cursor_record f v x" for x
    using assms by (rule decode_encode)
  have u: "v \<noteq> JUndefined" using assms(2) by (auto simp: serializable_def)
  have "generateNextCursor rt (Some row) f = Some (encode_cursor rt f v ''>'')"
       "generatePrevCursor rt (Some row) f = Some (encode_cursor rt f v ''<='')"
    if "f \<noteq> []" "get_prop row f = v"
    using that u by (simp_all add: generateNextCursor_def generatePrevCursor_def generate_cursor_def)
  with d show ?thesis by simp
qed

theorem cursor_round_trip_witness:
  "serializable decimal (JNum 42)
   \<and> encode_cursor node_rt ''id'' (JNum 42) ''>='' = ''eyJmaWVsZCI6ImlkIiwidmFsdWUiOjQyLCJvcGVyYXRvciI6Ij49In0=''
   \<and> decodeCursor node_rt (Some ''eyJmaWVsZCI6ImlkIiwidmFsdWUiOjQyLCJvcGVyYXRvciI6Ij49In0='')
       = JObj [(''field'', JStr ''id''), (''value'', JNum 42), (''operator'', JStr ''>='')]
   \<and> get_prop [(''id'', JNum (42 :: rat)), (''name'', JStr ''x'')] ''id'' = JNum 42
   \<and> decodeCursor node_rt (generateNextCursor node_rt
          (Some [(''id'', JNum 42), (''name'', JStr ''x'')]) ''id'')
       = JObj [(''field'', JStr ''id''), (''value'', JNum 42), (''operator'', JStr ''>'')]
   \<and> decodeCursor node_rt (generatePrevCursor node_rt
          (Some [(''id'', JNum 42), (''name'', JStr ''x'')]) ''id'')
       = JObj [(''field'', JStr ''id''), (''value'', JNum 42), (''operator'', JStr ''<='')]"
proof -
  have "decimal 42" by code_simp
  then have s: "serializable decimal (JNum 42)" by (simp add: serializable_def)
  have e: "encode_cursor node_rt ''id'' (JNum 42) ''>=''
             = ''eyJmaWVsZCI6ImlkIiwidmFsdWUiOjQyLCJvcGVyYXRvciI6Ij49In0=''"
    by code_simp
  have g: "get_prop [(''id'', JNum (42 :: rat)), (''name'', JStr ''x'')] ''id'' = JNum 42"
    by (simp add: get_prop_def)
  from cursor_round_trip [OF node_rt_codec_laws s, of "''id''" "''>=''"
         "[(''id'', JNum 42), (''name'', JStr ''x'')]"] e g s
  show ?thesis by (simp add: cursor_record_def)
qed

end
